theory Spec2Isabelle
  imports Main "HOL-Library.Signed_Division"
begin

section \<open>The region layout of a tab (src/Tab.cpp)\<close>

subsection \<open>Positions and lengths\<close>

text \<open>
  Modelled from the spec: the class \<^verbatim>\<open>BitOffset\<close> (its header is not among the sources).
  A value is a pair of whole bytes and 0..7 spare bits with carry between the two; the model
  keeps the total number of bits, so that the order and \<open>+\<close>, \<open>-\<close> are those of the integers.
  The 64-bit range of the C++ value is not modelled. The remainder \<^verbatim>\<open>%\<close> is the truncating one
  of C++ on the bit counts (\<open>smod\<close>); a zero divisor is an error of the model.
\<close>

type_synonym BitOffset = int

definition BitOffset :: "int \<Rightarrow> int \<Rightarrow> BitOffset" where
  "BitOffset byte_part bit_part = byte_part * 8 + bit_part"

definition byte :: "BitOffset \<Rightarrow> int" where
  "byte b = b sdiv 8"

definition byte_aligned :: "BitOffset \<Rightarrow> bool" where
  "byte_aligned b = (b smod 8 = 0)"

subsection \<open>Comments: the nodes of a ByteRangeTree and pointers to them\<close>

text \<open>
  Modelled from the spec: the tree of the comments and its nodes (the class \<^verbatim>\<open>ByteRangeTree\<close>
  is not among the sources), an ordered forest with links to the parent, the first child and
  the next sibling.
  A node carries its key (offset and length), its text and its children in order; the roots
  of the tree are a list of nodes. A pointer to a node is the path from the node up to its
  root: each level holds a node and the siblings that follow it, which is what
  \<^verbatim>\<open>get_next\<close>, \<^verbatim>\<open>get_parent\<close> and \<^verbatim>\<open>get_first_child\<close> can reach. The null pointer is the
  empty path. The source dereferences a pointer only after a test against null, and so does
  the model.
\<close>

datatype cnode = CNode (key_offset: BitOffset) (key_length: BitOffset) (value_text: string)
  (children: "cnode list")

type_synonym node_ptr = "(cnode \<times> cnode list) list"

definition first_root_node :: "cnode list \<Rightarrow> node_ptr" where
  "first_root_node roots = (case roots of [] \<Rightarrow> [] | r # rs \<Rightarrow> [(r, rs)])"

definition deref :: "node_ptr \<Rightarrow> cnode" where
  "deref p = fst (hd p)"

definition get_first_child :: "node_ptr \<Rightarrow> node_ptr" where
  "get_first_child p = (case children (deref p) of [] \<Rightarrow> [] | c # cs \<Rightarrow> (c, cs) # p)"

definition get_next :: "node_ptr \<Rightarrow> node_ptr" where
  "get_next p = (case p of [] \<Rightarrow> [] | (n, sibs) # up \<Rightarrow>
     (case sibs of [] \<Rightarrow> [] | s # ss \<Rightarrow> (s, ss) # up))"

definition get_parent :: "node_ptr \<Rightarrow> node_ptr" where
  "get_parent p = tl p"

text \<open>
  \<^verbatim>\<open>while(p->get_next() == NULL && p->get_parent() != NULL) p = p->get_parent();\<close>
  \<^verbatim>\<open>p = p->get_next();\<close>
\<close>

lemma length_get_parent: "get_parent p \<noteq> [] \<Longrightarrow> length (get_parent p) < length p"
  by (cases p) (simp_all add: get_parent_def)

function climb_next :: "node_ptr \<Rightarrow> node_ptr" where
  "climb_next p =
     (if get_next p = [] \<and> get_parent p \<noteq> [] then climb_next (get_parent p) else get_next p)"
  by pat_completeness auto
termination
  by (relation "measure length") (simp_all add: length_get_parent)

declare climb_next.simps [simp del]

text \<open>The nodes of a tree in the order of the walk: a node, then its children, then its
  next sibling; and the nodes that a pointer and its successors reach.\<close>

fun preorder :: "cnode \<Rightarrow> cnode list" where
  "preorder (CNode off len txt cs) = CNode off len txt cs # concat (map preorder cs)"

definition preorder_list :: "cnode list \<Rightarrow> cnode list" where
  "preorder_list ns = concat (map preorder ns)"

fun after :: "node_ptr \<Rightarrow> cnode list" where
  "after [] = []"
| "after ((n, sibs) # up) = preorder_list sibs @ after up"

definition ahead :: "node_ptr \<Rightarrow> cnode list" where
  "ahead p = (if p = [] then [] else preorder (deref p) @ after p)"

lemma preorder_eq_Cons: "preorder n = n # preorder_list (children n)"
  by (cases n) (simp add: preorder_list_def)

lemma ahead_eq_Cons: "p \<noteq> [] \<Longrightarrow> ahead p = deref p # preorder_list (children (deref p)) @ after p"
  by (simp add: ahead_def preorder_eq_Cons)

lemma ahead_get_first_child:
  "p \<noteq> [] \<Longrightarrow> get_first_child p \<noteq> [] \<Longrightarrow> ahead (get_first_child p) = tl (ahead p)"
proof -
  assume p: "p \<noteq> []" and fc: "get_first_child p \<noteq> []"
  from fc obtain c cs where cs: "children (deref p) = c # cs"
    by (auto simp: get_first_child_def split: list.splits)
  then have "ahead (get_first_child p) = preorder c @ preorder_list cs @ after p"
    using p by (cases p) (auto simp: ahead_def get_first_child_def deref_def)
  then show ?thesis
    using p cs by (simp add: ahead_eq_Cons preorder_list_def)
qed

lemma ahead_climb_next: "p \<noteq> [] \<Longrightarrow> ahead (climb_next p) = after p"
proof (induction p rule: climb_next.induct)
  case (1 p)
  obtain n sibs up where p: "p = (n, sibs) # up"
    using "1.prems" by (cases p) auto
  show ?case
  proof (cases "get_next p = [] \<and> get_parent p \<noteq> []")
    case True
    then have sibs: "sibs = []" and up: "up \<noteq> []"
      by (auto simp: p get_next_def get_parent_def split: list.splits)
    have "ahead (climb_next up) = after up"
      using "1.IH" [OF True] up by (simp add: p get_parent_def)
    moreover have "climb_next p = climb_next up"
      using True by (subst climb_next.simps) (simp add: p get_parent_def)
    ultimately show ?thesis
      by (simp add: p sibs preorder_list_def)
  next
    case False
    then have "climb_next p = get_next p"
      by (subst climb_next.simps) (simp only: if_False)
    moreover from False have "sibs = [] \<Longrightarrow> up = []"
      by (simp add: p get_next_def get_parent_def)
    ultimately show ?thesis
      by (cases sibs)
         (auto simp: p get_next_def ahead_def deref_def preorder_list_def)
  qed
qed

lemma length_ahead_get_first_child:
  "p \<noteq> [] \<Longrightarrow> get_first_child p \<noteq> [] \<Longrightarrow> length (ahead (get_first_child p)) < length (ahead p)"
  by (simp add: ahead_get_first_child) (simp add: ahead_eq_Cons)

lemma length_ahead_climb_next: "p \<noteq> [] \<Longrightarrow> length (ahead (climb_next p)) < length (ahead p)"
  by (simp add: ahead_climb_next ahead_eq_Cons)


subsection \<open>Data types, the document and the regions\<close>

text \<open>
  Modelled from the spec: the classes \<^verbatim>\<open>DataType\<close>, \<^verbatim>\<open>Document\<close>, \<^verbatim>\<open>ByteRangeMap\<close> and the
  region classes of \<^verbatim>\<open>DocumentCtrl\<close>, which are declared outside the sources. The model has
  the fields and the constructor arguments that \<^verbatim>\<open>Tab.cpp\<close> uses. \<open>region_factory\<close> is \<open>None\<close> for an empty \<^verbatim>\<open>std::function\<close>; a call of a
  factory builds a region of a class of the data type's own, recorded here as \<open>TypeRegion\<close>
  with the factory's tag and the offset, length and virtual offset of the call. The registry
  \<^verbatim>\<open>DataTypeRegistry::get_type\<close> is a parameter of the functions that consult it.
\<close>

record DataType =
  word_size :: BitOffset
  region_fixed_size :: BitOffset
  region_factory :: "string option"

record TypeInfo =
  name :: string
  options :: string

type_synonym registry = "string \<Rightarrow> string \<Rightarrow> DataType option"

text \<open>An entry of a range map: the key \<open>(offset, length)\<close> and the value; a map is the list
  of its entries in key order. The keys of the data types are in bits, as \<^verbatim>\<open>compute_regions\<close>
  compares them with its positions; those of the virtual segments and the length of the
  buffer are in bytes (\<^verbatim>\<open>off_t\<close>) and become positions by \<open>BitOffset x 0\<close>.\<close>

type_synonym 'a range_entry = "(int \<times> int) \<times> 'a"

definition range_offset :: "'a range_entry \<Rightarrow> int" where
  "range_offset e = fst (fst e)"

definition range_length :: "'a range_entry \<Rightarrow> int" where
  "range_length e = snd (fst e)"

record Document =
  comments :: "cnode list"
  data_types :: "TypeInfo range_entry list"
  buffer_length :: int
  virt_to_real_segs :: "int range_entry list"

datatype Region =
    is_CommentRegion: CommentRegion (c_offset: BitOffset) (c_length: BitOffset) (c_text: string)
      (c_truncate: bool) (indent_offset: BitOffset) (indent_length: BitOffset)
  | is_DataRegionDocHighlight: DataRegionDocHighlight (d_offset: BitOffset) (d_length: BitOffset)
      (virt_offset: BitOffset)
  | is_BitArrayRegion: BitArrayRegion (d_offset: BitOffset) (d_length: BitOffset)
      (virt_offset: BitOffset)
  | is_TypeRegion: TypeRegion (factory_tag: string) (d_offset: BitOffset) (d_length: BitOffset)
      (virt_offset: BitOffset)

datatype InlineCommentMode = ICM_HIDDEN | ICM_FULL | ICM_SHORT | ICM_FULL_INDENT | ICM_SHORT_INDENT

datatype DocumentDisplayMode = DDM_NORMAL | DDM_VIRTUAL

text \<open>
  The assertions of the two functions, each named after what it asserts:
  \<^item> \<open>Range_In_Buffer\<close>: \<^verbatim>\<open>(next_data + remain_data) <= BitOffset(doc->buffer_length(), 0)\<close>
  \<^item> \<open>Comment_Not_Behind\<close>: \<^verbatim>\<open>next_comment == NULL || next_comment->key.offset >= next_data\<close>
  \<^item> \<open>Limits_Nested\<close>: \<^verbatim>\<open>dr_limit.empty() || dr_limit.top() >= next_comment->key.offset + next_comment->key.length\<close>
  \<^item> \<open>Limit_Ahead\<close>: \<^verbatim>\<open>dr_limit.top() > next_data\<close>
  \<^item> \<open>Type_Found\<close>: \<^verbatim>\<open>types_iter != types.end()\<close>
  \<^item> \<open>Type_Covers\<close>: \<^verbatim>\<open>types_iter->first.offset <= next_data && (types_iter->first.offset + types_iter->first.length) > next_data\<close>
  \<^item> \<open>Length_Positive\<close>: \<^verbatim>\<open>dr_length > BitOffset::ZERO\<close>
  \<^item> \<open>Buffer_Empty\<close>: \<^verbatim>\<open>doc->buffer_length() == 0\<close>

  A failed assertion ends the program; in the model it ends the function with the error.
  A remainder by a word size of zero is the other error.
\<close>

datatype assertion = Range_In_Buffer | Comment_Not_Behind | Limits_Nested | Limit_Ahead
  | Type_Found | Type_Covers | Length_Positive | Buffer_Empty

datatype error = AssertionFailed assertion | DivisionByZero

subsection \<open>compute\_regions\<close>

text \<open>The local variables of \<^verbatim>\<open>compute_regions\<close> that its loop changes. The stack
  \<open>dr_limit\<close> has its top at the head of the list.\<close>

record cr_state =
  next_comment :: node_ptr
  types_iter :: "TypeInfo range_entry list"
  next_data :: BitOffset
  next_virt :: BitOffset
  remain_data :: BitOffset
  regions :: "Region list"
  dr_limit :: "BitOffset list"

text \<open>The first loop: skip the comments before \<open>real_offset_base\<close>.\<close>

function skip_comments :: "node_ptr \<Rightarrow> BitOffset \<Rightarrow> node_ptr" where
  "skip_comments nc nd =
     (if nc \<noteq> [] \<and> key_offset (deref nc) < nd then
        (let first_child = get_first_child nc in
         if first_child \<noteq> []
            \<and> (key_offset (deref first_child) = key_offset (deref nc)
               \<or> key_offset (deref first_child) \<ge> nd)
         then skip_comments (get_first_child nc) nd
         else skip_comments (climb_next nc) nd)
      else nc)"
  by pat_completeness auto
termination
  by (relation "measure (\<lambda>(nc, nd). length (ahead nc))")
     (simp_all add: length_ahead_get_first_child length_ahead_climb_next)

declare skip_comments.simps [simp del]

text \<open>The step from a comment to the next one of the walk, as the loop over the comments at
  \<open>next_data\<close> takes it.\<close>

definition advance_comment :: "node_ptr \<Rightarrow> node_ptr" where
  "advance_comment nc =
     (if get_first_child nc \<noteq> [] then get_first_child nc else climb_next nc)"

lemma ahead_advance_comment: "nc \<noteq> [] \<Longrightarrow> ahead (advance_comment nc) = tl (ahead nc)"
proof (cases "get_first_child nc = []")
  case True
  assume nc: "nc \<noteq> []"
  from True have "children (deref nc) = []"
    by (simp add: get_first_child_def split: list.splits)
  with nc True show ?thesis
    by (simp add: advance_comment_def ahead_climb_next ahead_eq_Cons preorder_list_def)
next
  case False
  assume "nc \<noteq> []"
  with False show ?thesis
    by (simp add: advance_comment_def ahead_get_first_child)
qed

text \<open>The body of the loop over the comments whose offset is \<open>next_data\<close>: the comment
  region, the limit of the data regions nested in it, the step to the next comment.\<close>

definition emit_comment :: "bool \<Rightarrow> bool \<Rightarrow> cr_state \<Rightarrow> error + cr_state" where
  "emit_comment nest truncate' st =
     (let c = deref (next_comment st);
          indent_offset = next_virt st;
          indent_length = (if nest then min (key_length c) (remain_data st) else 0);
          st = st\<lparr>regions := regions st @
                  [CommentRegion (key_offset c) (key_length c) (value_text c) truncate'
                     indent_offset indent_length]\<rparr>
      in if nest \<and> key_length c > 0
            \<and> \<not> (dr_limit st = [] \<or> hd (dr_limit st) \<ge> key_offset c + key_length c)
         then Inl (AssertionFailed Limits_Nested)
         else
           (let st = (if nest \<and> key_length c > 0
                      then st\<lparr>dr_limit := (key_offset c + key_length c) # dr_limit st\<rparr>
                      else st)
            in Inr (st\<lparr>next_comment := advance_comment (next_comment st)\<rparr>)))"

lemma next_comment_emit_comment:
  "emit_comment nest truncate' st = Inr st' \<Longrightarrow>
     next_comment st' = advance_comment (next_comment st)"
  by (auto simp: emit_comment_def Let_def split: if_splits)

text \<open>The loop over the comments whose offset is \<open>next_data\<close>.\<close>

function emit_comments :: "bool \<Rightarrow> bool \<Rightarrow> cr_state \<Rightarrow> error + cr_state" where
  "emit_comments nest truncate' st =
     (if next_comment st \<noteq> [] \<and> key_offset (deref (next_comment st)) = next_data st then
        (case emit_comment nest truncate' st of
           Inl e \<Rightarrow> Inl e
         | Inr st' \<Rightarrow> emit_comments nest truncate' st')
      else Inr st)"
  by pat_completeness auto
termination
  by (relation "measure (\<lambda>(nest, truncate', st). length (ahead (next_comment st)))")
     (auto simp: next_comment_emit_comment ahead_advance_comment ahead_eq_Cons)

declare emit_comments.simps [simp del]

text \<open>The choice of the data region at \<open>next_data\<close>, once \<open>dr_length\<close> is clamped to the next
  comment, the innermost open comment and the current type range: the region and its
  length.\<close>

definition data_block ::
  "DataType option \<Rightarrow> BitOffset \<Rightarrow> BitOffset \<Rightarrow> BitOffset \<Rightarrow> error + (Region \<times> BitOffset)"
where
  "data_block dt nd dr_length nv =
     (if dt \<noteq> None \<and> region_factory (the dt) \<noteq> None \<and> region_fixed_size (the dt) \<le> dr_length
      then
        (if region_fixed_size (the dt) > 0 \<and> dr_length > region_fixed_size (the dt)
         then Inr (TypeRegion (the (region_factory (the dt))) nd (region_fixed_size (the dt)) nv,
                   region_fixed_size (the dt))
         else if word_size (the dt) = 0 then Inl DivisionByZero
         else
           (let dr_length' = (if dr_length smod word_size (the dt) \<noteq> 0
                              then dr_length - dr_length smod word_size (the dt)
                              else dr_length)
            in if \<not> dr_length' > 0 then Inl (AssertionFailed Length_Positive)
               else Inr (TypeRegion (the (region_factory (the dt))) nd dr_length' nv, dr_length')))
      else
        (if dr_length < BitOffset 1 0
         then Inr (BitArrayRegion nd dr_length nv, dr_length)
         else
           (let dr_length' = (if \<not> byte_aligned dr_length
                              then BitOffset (byte dr_length) 0 else dr_length)
            in Inr (DataRegionDocHighlight nd dr_length' nv, dr_length'))))"

text \<open>The three clamps of \<open>dr_length\<close> in a turn of the main loop: to the offset of the next
  comment, to the limit on top of the stack, and to the end of the current type range.\<close>

definition clamp_to_comment :: "cr_state \<Rightarrow> BitOffset \<Rightarrow> BitOffset" where
  "clamp_to_comment st dr_length =
     (if next_comment st \<noteq> []
         \<and> dr_length > key_offset (deref (next_comment st)) - next_data st
      then key_offset (deref (next_comment st)) - next_data st
      else dr_length)"

definition limit_reached :: "cr_state \<Rightarrow> BitOffset \<Rightarrow> bool" where
  "limit_reached st dr_length =
     (dr_limit st \<noteq> [] \<and> next_data st + dr_length \<ge> hd (dr_limit st))"

definition clamp_to_limit :: "cr_state \<Rightarrow> BitOffset \<Rightarrow> BitOffset" where
  "clamp_to_limit st dr_length =
     (if limit_reached st dr_length then hd (dr_limit st) - next_data st else dr_length)"

definition clamp_to_type :: "cr_state \<Rightarrow> BitOffset \<Rightarrow> BitOffset" where
  "clamp_to_type st dr_length =
     min dr_length
       (range_length (hd (types_iter st)) - (next_data st - range_offset (hd (types_iter st))))"

text \<open>The end of a turn: the new region joins the list, the positions move by its length,
  and the type iterator moves on when the end of its range is reached.\<close>

definition push_data_region :: "cr_state \<Rightarrow> Region \<Rightarrow> BitOffset \<Rightarrow> cr_state" where
  "push_data_region st0 r dr_length =
     (let st = st0\<lparr>regions := regions st0 @ [r],
                   next_data := next_data st0 + dr_length,
                   next_virt := next_virt st0 + dr_length,
                   remain_data := remain_data st0 - dr_length\<rparr>
      in if next_data st \<ge> range_offset (hd (types_iter st)) + range_length (hd (types_iter st))
         then st\<lparr>types_iter := tl (types_iter st)\<rparr>
         else st)"

text \<open>One turn of the main loop.\<close>

definition loop_body ::
  "registry \<Rightarrow> Document \<Rightarrow> bool \<Rightarrow> bool \<Rightarrow> cr_state \<Rightarrow> error + cr_state"
where
  "loop_body get_type doc nest truncate' st0 =
     (if \<not> (next_data st0 + remain_data st0 \<le> BitOffset (buffer_length doc) 0)
      then Inl (AssertionFailed Range_In_Buffer)
      else if \<not> (next_comment st0 = [] \<or> key_offset (deref (next_comment st0)) \<ge> next_data st0)
      then Inl (AssertionFailed Comment_Not_Behind)
      else case emit_comments nest truncate'
                  (st0\<lparr>dr_limit := dropWhile (\<lambda>top. top \<le> next_data st0) (dr_limit st0)\<rparr>) of
        Inl e \<Rightarrow> Inl e
      | Inr st \<Rightarrow>
          let dr_length = clamp_to_comment st (remain_data st)
          in if limit_reached st dr_length \<and> \<not> (hd (dr_limit st) > next_data st)
          then Inl (AssertionFailed Limit_Ahead)
          else let dr_length = clamp_to_limit st dr_length
          in if types_iter st = [] then Inl (AssertionFailed Type_Found)
          else if \<not> (range_offset (hd (types_iter st)) \<le> next_data st
                       \<and> range_offset (hd (types_iter st)) + range_length (hd (types_iter st))
                            > next_data st)
          then Inl (AssertionFailed Type_Covers)
          else let dr_length = clamp_to_type st dr_length;
                   dt = get_type (name (snd (hd (types_iter st))))
                          (options (snd (hd (types_iter st))))
          in (case data_block dt (next_data st) dr_length (next_virt st) of
            Inl e \<Rightarrow> Inl e
          | Inr (r, dr_length) \<Rightarrow> Inr (push_data_region st r dr_length)))"

text \<open>The main loop. It ends when an assertion fails or when no data remains; a run that does
  neither has no result (\<open>None\<close>).\<close>

partial_function (option) main_loop ::
  "registry \<Rightarrow> Document \<Rightarrow> bool \<Rightarrow> bool \<Rightarrow> cr_state \<Rightarrow> (error + Region list) option"
where
  "main_loop get_type doc nest truncate' st =
     (if remain_data st > 0 then
        (case loop_body get_type doc nest truncate' st of
           Inl e \<Rightarrow> Some (Inl e)
         | Inr st' \<Rightarrow> main_loop get_type doc nest truncate' st')
      else Some (Inr (regions st)))"

declare main_loop.simps [code]

definition compute_regions ::
  "registry \<Rightarrow> Document \<Rightarrow> BitOffset \<Rightarrow> BitOffset \<Rightarrow> BitOffset \<Rightarrow> InlineCommentMode
     \<Rightarrow> (error + Region list) option"
where
  "compute_regions get_type doc real_offset_base virt_offset_base length' inline_comment_mode =
     (let nest = (inline_comment_mode = ICM_SHORT_INDENT \<or> inline_comment_mode = ICM_FULL_INDENT);
          truncate' = (inline_comment_mode = ICM_SHORT \<or> inline_comment_mode = ICM_SHORT_INDENT);
          nc = skip_comments (first_root_node (comments doc)) real_offset_base;
          ti = dropWhile (\<lambda>t. range_offset t + range_length t \<le> real_offset_base)
                 (data_types doc);
          nc = (if inline_comment_mode = ICM_HIDDEN then [] else nc)
      in main_loop get_type doc nest truncate'
           \<lparr>next_comment = nc, types_iter = ti, next_data = real_offset_base,
            next_virt = virt_offset_base, remain_data = length', regions = [],
            dr_limit = []\<rparr>)"


subsection \<open>repopulate\_regions\<close>

definition C_TEXT :: string where
  "C_TEXT = ''No virtual sections defined, displaying file data instead.''"

text \<open>The loop over the virtual segments, appending to the vector \<^verbatim>\<open>regions\<close>.\<close>

fun virtual_view ::
  "registry \<Rightarrow> Document \<Rightarrow> InlineCommentMode \<Rightarrow> int range_entry list \<Rightarrow> Region list
     \<Rightarrow> (error + Region list) option"
where
  "virtual_view get_type doc icm [] regions' = Some (Inr regions')"
| "virtual_view get_type doc icm (i # segs) regions' =
     (let real_offset_base = snd i;
          virt_offset_base = range_offset i;
          length' = range_length i
      in case compute_regions get_type doc (BitOffset real_offset_base 0)
                (BitOffset virt_offset_base 0) (BitOffset length' 0) icm of
           None \<Rightarrow> None
         | Some (Inl e) \<Rightarrow> Some (Inl e)
         | Some (Inr v_regions) \<Rightarrow> virtual_view get_type doc icm segs (regions' @ v_regions))"

text \<open>What the file view does with the regions of the whole file before it appends them.\<close>

definition finish_file_regions :: "Document \<Rightarrow> Region list \<Rightarrow> error + Region list" where
  "finish_file_regions doc file_regions =
     (if file_regions = [] then
        (if \<not> buffer_length doc = 0 then Inl (AssertionFailed Buffer_Empty)
         else Inr (file_regions @ [DataRegionDocHighlight 0 0 0]))
      else if \<not> is_DataRegionDocHighlight (last file_regions) then
        Inr (file_regions @ [DataRegionDocHighlight (BitOffset (buffer_length doc) 0) 0
                               (BitOffset (buffer_length doc) 0)])
      else Inr file_regions)"

text \<open>The block at the label \<^verbatim>\<open>DO_FILE_VIEW\<close>, appending to the vector \<^verbatim>\<open>regions\<close>.\<close>

definition file_view ::
  "registry \<Rightarrow> Document \<Rightarrow> InlineCommentMode \<Rightarrow> Region list \<Rightarrow> (error + Region list) option"
where
  "file_view get_type doc icm regions' =
     (case compute_regions get_type doc 0 0 (BitOffset (buffer_length doc) 0) icm of
        None \<Rightarrow> None
      | Some (Inl e) \<Rightarrow> Some (Inl e)
      | Some (Inr file_regions) \<Rightarrow>
          (case finish_file_regions doc file_regions of
             Inl e \<Rightarrow> Some (Inl e)
           | Inr file_regions \<Rightarrow> Some (Inr (regions' @ file_regions))))"

text \<open>The vector \<^verbatim>\<open>regions\<close> that \<^verbatim>\<open>repopulate_regions\<close> builds when it is not frozen, from
  the document and the two display modes of the tab.\<close>

definition prepare_regions ::
  "registry \<Rightarrow> Document \<Rightarrow> DocumentDisplayMode \<Rightarrow> InlineCommentMode
     \<Rightarrow> (error + Region list) option"
where
  "prepare_regions get_type doc ddm icm =
     (if ddm = DDM_VIRTUAL then
        (if virt_to_real_segs doc = [] then
           file_view get_type doc icm
             [CommentRegion (BitOffset (- 1) 0) 0 C_TEXT False (BitOffset (- 1) 0) 0]
         else virtual_view get_type doc icm (virt_to_real_segs doc) [])
      else file_view get_type doc icm [])"

text \<open>
  The members of \<^verbatim>\<open>Tab\<close> that \<^verbatim>\<open>repopulate_regions\<close> reads and writes. \<open>doc_ctrl\<close> is the
  sequence of the calls \<^verbatim>\<open>doc_ctrl->replace_all_regions(regions)\<close> made so far, oldest first:
  the document control shows the last one.
\<close>

record Tab =
  doc :: Document
  inline_comment_mode :: InlineCommentMode
  document_display_mode :: DocumentDisplayMode
  repopulate_regions_frozen :: bool
  repopulate_regions_pending :: bool
  doc_ctrl :: "Region list list"

definition repopulate_regions :: "registry \<Rightarrow> Tab \<Rightarrow> (error + Tab) option" where
  "repopulate_regions get_type tab =
     (if repopulate_regions_frozen tab then
        Some (Inr (tab\<lparr>repopulate_regions_pending := True\<rparr>))
      else
        (case prepare_regions get_type (doc tab) (document_display_mode tab)
                (inline_comment_mode tab) of
           None \<Rightarrow> None
         | Some (Inl e) \<Rightarrow> Some (Inl e)
         | Some (Inr regions') \<Rightarrow> Some (Inr (tab\<lparr>doc_ctrl := doc_ctrl tab @ [regions']\<rparr>))))"

definition repopulate_regions_freeze :: "Tab \<Rightarrow> Tab" where
  "repopulate_regions_freeze tab = tab\<lparr>repopulate_regions_frozen := True\<rparr>"

definition repopulate_regions_thaw :: "registry \<Rightarrow> Tab \<Rightarrow> (error + Tab) option" where
  "repopulate_regions_thaw get_type tab0 =
     (let tab = tab0\<lparr>repopulate_regions_frozen := False\<rparr>
      in if repopulate_regions_pending tab then
           (case repopulate_regions get_type tab of
              None \<Rightarrow> None
            | Some (Inl e) \<Rightarrow> Some (Inl e)
            | Some (Inr tab) \<Rightarrow> Some (Inr (tab\<lparr>repopulate_regions_pending := False\<rparr>)))
         else Some (Inr tab))"


subsection \<open>Notions used to state the properties\<close>

text \<open>The regions that hold data, in the order of the list, and the offset, the virtual
  offset and the length that each kind of region records.\<close>

definition data_regions :: "Region list \<Rightarrow> Region list" where
  "data_regions rs = filter (\<lambda>r. \<not> is_CommentRegion r) rs"

fun region_offset :: "Region \<Rightarrow> BitOffset" where
  "region_offset (CommentRegion off len txt tr ioff ilen) = off"
| "region_offset (DataRegionDocHighlight off len virt) = off"
| "region_offset (BitArrayRegion off len virt) = off"
| "region_offset (TypeRegion tag off len virt) = off"

fun region_virt_offset :: "Region \<Rightarrow> BitOffset" where
  "region_virt_offset (CommentRegion off len txt tr ioff ilen) = ioff"
| "region_virt_offset (DataRegionDocHighlight off len virt) = virt"
| "region_virt_offset (BitArrayRegion off len virt) = virt"
| "region_virt_offset (TypeRegion tag off len virt) = virt"

text \<open>Notifications of a change of the document, each followed by the request to rebuild
  the regions that the handlers of \<^verbatim>\<open>Tab\<close> make: the list holds the document as it is at each
  notification.\<close>

fun requests :: "registry \<Rightarrow> Document list \<Rightarrow> Tab \<Rightarrow> (error + Tab) option" where
  "requests get_type [] tab = Some (Inr tab)"
| "requests get_type (d # ds) tab =
     (case repopulate_regions get_type (tab\<lparr>doc := d\<rparr>) of
        None \<Rightarrow> None
      | Some (Inl e) \<Rightarrow> Some (Inl e)
      | Some (Inr tab') \<Rightarrow> requests get_type ds tab')"

text \<open>A registry and documents for the concrete cases: a 16-bit number with a region of fixed
  size, a 32-bit word type whose regions have no fixed size, and the default type, which has
  no region factory.\<close>

definition example_types :: registry where
  "example_types n opts =
     (if n = ''u16'' then
        Some \<lparr>word_size = BitOffset 2 0, region_fixed_size = BitOffset 2 0,
              region_factory = Some ''u16''\<rparr>
      else if n = ''w32'' then
        Some \<lparr>word_size = BitOffset 4 0, region_fixed_size = 0, region_factory = Some ''w32''\<rparr>
      else if n = [] then
        Some \<lparr>word_size = BitOffset 1 0, region_fixed_size = 0, region_factory = None\<rparr>
      else None)"

definition untyped :: TypeInfo where
  "untyped = \<lparr>name = [], options = []\<rparr>"

definition plain_document :: "int \<Rightarrow> Document" where
  "plain_document n =
     \<lparr>comments = [], data_types = [((0, BitOffset n 0), untyped)], buffer_length = n,
      virt_to_real_segs = []\<rparr>"

definition typed_document :: Document where
  "typed_document =
     \<lparr>comments = [], data_types = [((0, 16), \<lparr>name = ''u16'', options = []\<rparr>)],
      buffer_length = 2, virt_to_real_segs = [((0, 2), 0)]\<rparr>"

definition commented_document :: Document where
  "commented_document =
     (plain_document 10)\<lparr>comments := [CNode (BitOffset 2 0) (BitOffset 3 0) ''A'' []]\<rparr>"

definition two_segment_document :: Document where
  "two_segment_document =
     (plain_document 300)\<lparr>virt_to_real_segs := [((0, 5), 100), ((5, 5), 200)]\<rparr>"

definition nested_document :: Document where
  "nested_document =
     (plain_document 10)
       \<lparr>comments := [CNode 16 24 ''A'' [CNode 16 0 ''B'' []], CNode 40 0 ''C'' []]\<rparr>"

definition word_document :: Document where
  "word_document =
     \<lparr>comments = [CNode (BitOffset 2 0) 0 ''Z'' []],
      data_types = [((0, BitOffset 8 0), \<lparr>name = ''w32'', options = []\<rparr>)],
      buffer_length = 8, virt_to_real_segs = []\<rparr>"

definition mixed_document :: Document where
  "mixed_document =
     \<lparr>comments = [CNode 16 24 ''A'' [CNode 16 0 ''B'' []], CNode 40 0 ''C'' []],
      data_types = [((0, 32), \<lparr>name = ''u16'', options = []\<rparr>), ((32, 48), untyped)],
      buffer_length = 10, virt_to_real_segs = []\<rparr>"

text \<open>More documents for the concrete cases: two 16-bit numbers; 16-bit numbers over eight
  bytes with a comment of length zero at the second byte; a byte with a comment of length
  zero at its fifth bit; two bytes with a comment of length zero at the end of the buffer;
  and the empty file.\<close>

definition u16_pair_document :: Document where
  "u16_pair_document =
     \<lparr>comments = [], data_types = [((0, 32), \<lparr>name = ''u16'', options = []\<rparr>)],
      buffer_length = 4, virt_to_real_segs = []\<rparr>"

definition halfword_document :: Document where
  "halfword_document =
     \<lparr>comments = [CNode (BitOffset 1 0) 0 ''Z'' []],
      data_types = [((0, BitOffset 8 0), \<lparr>name = ''u16'', options = []\<rparr>)],
      buffer_length = 8, virt_to_real_segs = []\<rparr>"

definition bit_comment_document :: Document where
  "bit_comment_document =
     (plain_document 1)\<lparr>comments := [CNode (BitOffset 0 4) 0 ''b'' []]\<rparr>"


definition empty_document :: Document where
  "empty_document =
     \<lparr>comments = [], data_types = [], buffer_length = 0, virt_to_real_segs = []\<rparr>"

definition new_tab :: "Document \<Rightarrow> Tab" where
  "new_tab d =
     \<lparr>doc = d, inline_comment_mode = ICM_FULL_INDENT, document_display_mode = DDM_NORMAL,
      repopulate_regions_frozen = False, repopulate_regions_pending = False, doc_ctrl = []\<rparr>"

text \<open>
  Well-formed comments: the length of a comment is not negative, its children lie within its
  range, and each sibling (or root) starts at or after the end of the one before it.
\<close>

fun siblings_ordered :: "cnode list \<Rightarrow> bool" where
  "siblings_ordered [] = True"
| "siblings_ordered [c] = True"
| "siblings_ordered (c # c' # cs) =
     (key_offset c + key_length c \<le> key_offset c' \<and> siblings_ordered (c' # cs))"

fun wf_comment :: "cnode \<Rightarrow> bool" where
  "wf_comment (CNode off len txt cs) =
     (0 \<le> len
      \<and> (\<forall>c \<in> set cs. off \<le> key_offset c \<and> key_offset c + key_length c \<le> off + len
                          \<and> wf_comment c)
      \<and> siblings_ordered cs)"

definition wf_comments :: "cnode list \<Rightarrow> bool" where
  "wf_comments roots = ((\<forall>c \<in> set roots. wf_comment c) \<and> siblings_ordered roots)"

text \<open>
  Well-formed types: the ranges of the data types, in order, each of positive length and each
  starting where the one before it ends, cover the buffer from its first bit to its last.
\<close>

fun partition_of :: "'a range_entry list \<Rightarrow> int \<Rightarrow> int \<Rightarrow> bool" where
  "partition_of [] lo hi = (lo = hi)"
| "partition_of (t # ts) lo hi =
     (range_offset t = lo \<and> 0 < range_length t \<and> partition_of ts (lo + range_length t) hi)"

definition wf_types :: "Document \<Rightarrow> bool" where
  "wf_types d = partition_of (data_types d) 0 (BitOffset (buffer_length d) 0)"

text \<open>
  Two conditions on the types that the document uses and that have a region factory. The
  first: the word size is positive. The second: moreover the word size is one bit, or the
  region has a positive fixed size of at least a word.
\<close>

definition word_sizes_positive :: "registry \<Rightarrow> Document \<Rightarrow> bool" where
  "word_sizes_positive get_type d =
     (\<forall>t \<in> set (data_types d).
        case get_type (name (snd t)) (options (snd t)) of
          None \<Rightarrow> True
        | Some dt \<Rightarrow> region_factory dt \<noteq> None \<longrightarrow> 0 < word_size dt)"

definition words_fit :: "registry \<Rightarrow> Document \<Rightarrow> bool" where
  "words_fit get_type d =
     (\<forall>t \<in> set (data_types d).
        case get_type (name (snd t)) (options (snd t)) of
          None \<Rightarrow> True
        | Some dt \<Rightarrow> region_factory dt \<noteq> None \<longrightarrow>
            word_size dt = 1 \<or> (0 < region_fixed_size dt \<and> word_size dt \<le> region_fixed_size dt))"

text \<open>Data regions that follow one another from \<open>a\<close> to \<open>b\<close>: the first starts at \<open>a\<close>, each
  has a positive length and ends where the next starts, and the last ends at \<open>b\<close>.\<close>

fun contiguous :: "BitOffset \<Rightarrow> Region list \<Rightarrow> BitOffset \<Rightarrow> bool" where
  "contiguous a [] b = (a = b)"
| "contiguous a (r # rs) b =
     (region_offset r = a \<and> 0 < d_length r \<and> contiguous (a + d_length r) rs b)"

text \<open>Comments in the order of the walk: each starts at or after those before it, and lies
  within each of those that it starts in.\<close>

fun nested_ok :: "cnode list \<Rightarrow> bool" where
  "nested_ok [] = True"
| "nested_ok (c # cs) =
     ((\<forall>x \<in> set cs. key_offset c \<le> key_offset x
          \<and> (key_offset x < key_offset c + key_length c
               \<longrightarrow> key_offset x + key_length x \<le> key_offset c + key_length c))
      \<and> nested_ok cs)"

subsection \<open>What the loops maintain\<close>

text \<open>The positions of a run of \<open>compute_regions\<close> move together: the virtual position stays at
  a fixed distance of the position in the file, and the position and the remaining length
  add up to the end of the range.\<close>

definition in_step :: "BitOffset \<Rightarrow> BitOffset \<Rightarrow> BitOffset \<Rightarrow> cr_state \<Rightarrow> bool" where
  "in_step real_base virt_base length' s =
     (next_virt s - next_data s = virt_base - real_base
      \<and> next_data s + remain_data s = real_base + length')"

text \<open>The nodes of a subtree lie within its root, and are in order.\<close>

definition subtree_ok :: "cnode \<Rightarrow> bool" where
  "subtree_ok n =
     (nested_ok (preorder n)
      \<and> (\<forall>x \<in> set (preorder n). key_offset n \<le> key_offset x \<and> 0 \<le> key_length x
            \<and> key_offset x + key_length x \<le> key_offset n + key_length n))"

text \<open>The first range of the list holds the position, and the ranges after it go on to the
  end of the buffer.\<close>

definition types_at :: "'a range_entry list \<Rightarrow> int \<Rightarrow> int \<Rightarrow> bool" where
  "types_at ts pos hi =
     (case ts of
        [] \<Rightarrow> False
      | t # ts' \<Rightarrow> range_offset t \<le> pos \<and> pos < range_offset t + range_length t
          \<and> partition_of ts' (range_offset t + range_length t) hi)"

text \<open>
  The comments ahead are in order and none lies behind the position; and every limit on the
  stack is the end of a range that holds each comment ahead that starts before it.
\<close>

definition comments_inv :: "cr_state \<Rightarrow> bool" where
  "comments_inv s =
     (nested_ok (ahead (next_comment s))
      \<and> (next_comment s \<noteq> [] \<longrightarrow> next_data s \<le> key_offset (deref (next_comment s)))
      \<and> (\<forall>e \<in> set (dr_limit s). \<forall>c \<in> set (ahead (next_comment s)).
            key_offset c < e \<longrightarrow> key_offset c + key_length c \<le> e))"

definition limit_ahead :: "cr_state \<Rightarrow> bool" where
  "limit_ahead s = (dr_limit s = [] \<or> next_data s < hd (dr_limit s))"

definition cr_inv :: "Document \<Rightarrow> BitOffset \<Rightarrow> BitOffset \<Rightarrow> BitOffset \<Rightarrow> cr_state \<Rightarrow> bool" where
  "cr_inv d real_base virt_base length' s =
     (in_step real_base virt_base length' s
      \<and> 0 \<le> remain_data s
      \<and> real_base + length' \<le> BitOffset (buffer_length d) 0
      \<and> contiguous real_base (data_regions (regions s)) (next_data s)
      \<and> set (types_iter s) \<subseteq> set (data_types d)
      \<and> (0 < remain_data s \<longrightarrow>
           types_at (types_iter s) (next_data s) (BitOffset (buffer_length d) 0))
      \<and> comments_inv s)"

section \<open>Properties\<close>

subsection \<open>What the loops do to the state\<close>

lemma emit_comment_Inr:
  assumes "emit_comment nest truncate' st = Inr st'"
  shows "st' = st
    \<lparr>regions := regions st @
       [CommentRegion (key_offset (deref (next_comment st))) (key_length (deref (next_comment st)))
          (value_text (deref (next_comment st))) truncate' (next_virt st)
          (if nest then min (key_length (deref (next_comment st))) (remain_data st) else 0)],
     dr_limit := (if nest \<and> key_length (deref (next_comment st)) > 0
                  then (key_offset (deref (next_comment st)) + key_length (deref (next_comment st)))
                         # dr_limit st
                  else dr_limit st),
     next_comment := advance_comment (next_comment st)\<rparr>"
  using assms by (auto simp: emit_comment_def Let_def split: if_splits)

lemma emit_comments_rule:
  assumes "emit_comments nest truncate' st = Inr st'"
    and "P st"
    and "\<And>s s'. P s \<Longrightarrow> next_comment s \<noteq> [] \<Longrightarrow> key_offset (deref (next_comment s)) = next_data s
           \<Longrightarrow> emit_comment nest truncate' s = Inr s' \<Longrightarrow> P s'"
  shows "P st'
    \<and> \<not> (next_comment st' \<noteq> [] \<and> key_offset (deref (next_comment st')) = next_data st')"
  using assms
proof (induction nest truncate' st rule: emit_comments.induct)
  case (1 nest truncate' st)
  show ?case
  proof (cases "next_comment st \<noteq> [] \<and> key_offset (deref (next_comment st)) = next_data st")
    case True
    with "1.prems"(1) obtain s where s: "emit_comment nest truncate' st = Inr s"
      and rest: "emit_comments nest truncate' s = Inr st'"
      by (subst (asm) emit_comments.simps) (auto split: sum.splits)
    from "1.prems"(3) [OF "1.prems"(2) _ _ s] True have "P s" by simp
    from "1.IH" [OF True s rest this "1.prems"(3)] show ?thesis by simp
  next
    case False
    with "1.prems"(1) have "st' = st"
      by (subst (asm) emit_comments.simps) auto
    with False "1.prems"(2) show ?thesis by simp
  qed
qed

lemma emit_comments_fields:
  assumes "emit_comments nest truncate' st = Inr st'"
  shows "next_data st' = next_data st \<and> next_virt st' = next_virt st
    \<and> remain_data st' = remain_data st \<and> types_iter st' = types_iter st"
proof -
  let ?P = "\<lambda>s. next_data s = next_data st \<and> next_virt s = next_virt st
    \<and> remain_data s = remain_data st \<and> types_iter s = types_iter st"
  have "?P st'
      \<and> \<not> (next_comment st' \<noteq> [] \<and> key_offset (deref (next_comment st')) = next_data st')"
    by (rule emit_comments_rule [OF assms, where P = ?P]) (auto dest!: emit_comment_Inr)
  then show ?thesis by simp
qed

lemma emit_comments_no_comment:
  "next_comment st = [] \<Longrightarrow> emit_comments nest truncate' st = Inr st"
  by (subst emit_comments.simps) simp

lemma loop_body_InrE:
  assumes "loop_body get_type d nest truncate' st = Inr st'"
  obtains st1 r len where
    "next_data st + remain_data st \<le> BitOffset (buffer_length d) 0"
    "next_comment st = [] \<or> next_data st \<le> key_offset (deref (next_comment st))"
    "emit_comments nest truncate'
       (st\<lparr>dr_limit := dropWhile (\<lambda>top. top \<le> next_data st) (dr_limit st)\<rparr>) = Inr st1"
    "limit_reached st1 (clamp_to_comment st1 (remain_data st1))
       \<Longrightarrow> next_data st1 < hd (dr_limit st1)"
    "types_iter st1 \<noteq> []"
    "range_offset (hd (types_iter st1)) \<le> next_data st1"
    "next_data st1 < range_offset (hd (types_iter st1)) + range_length (hd (types_iter st1))"
    "data_block
       (get_type (name (snd (hd (types_iter st1)))) (options (snd (hd (types_iter st1)))))
       (next_data st1)
       (clamp_to_type st1 (clamp_to_limit st1 (clamp_to_comment st1 (remain_data st1))))
       (next_virt st1) = Inr (r, len)"
    "st' = push_data_region st1 r len"
  using assms unfolding loop_body_def Let_def
  by (auto split: if_splits sum.splits prod.splits)

lemma push_data_region_fields:
  "regions (push_data_region st r len) = regions st @ [r]"
  "next_data (push_data_region st r len) = next_data st + len"
  "next_virt (push_data_region st r len) = next_virt st + len"
  "remain_data (push_data_region st r len) = remain_data st - len"
  "next_comment (push_data_region st r len) = next_comment st"
  "dr_limit (push_data_region st r len) = dr_limit st"
  by (simp_all add: push_data_region_def Let_def)

lemma main_loop_rule:
  assumes "main_loop get_type d nest truncate' st = Some (Inr rs)"
    and "P st"
    and "\<And>s s'. P s \<Longrightarrow> 0 < remain_data s \<Longrightarrow> loop_body get_type d nest truncate' s = Inr s'
           \<Longrightarrow> P s'"
  shows "\<exists>s. P s \<and> remain_data s \<le> 0 \<and> rs = regions s"
proof -
  let ?Q = "\<lambda>g d' n t (s0 :: cr_state) (y :: error + Region list).
      (g = get_type \<and> d' = d \<and> (n \<longleftrightarrow> nest) \<and> (t \<longleftrightarrow> truncate')) \<longrightarrow> P s0 \<longrightarrow>
        (\<forall>rs. y = Inr rs \<longrightarrow> (\<exists>s. P s \<and> remain_data s \<le> 0 \<and> rs = regions s))"
  have "?Q get_type d nest truncate' st (Inr rs)"
  proof (rule main_loop.raw_induct [where P = ?Q, OF _ assms(1)])
    fix f :: "registry \<Rightarrow> Document \<Rightarrow> bool \<Rightarrow> bool \<Rightarrow> cr_state \<Rightarrow> (error + Region list) option"
    fix g d' n t s0 y
    assume IH: "\<And>g d' n t s0 y. f g d' n t s0 = Some y \<Longrightarrow> ?Q g d' n t s0 y"
      and unfolded: "(if 0 < remain_data s0
           then case loop_body g d' n t s0 of Inl e \<Rightarrow> Some (Inl e) | Inr st' \<Rightarrow> f g d' n t st'
           else Some (Inr (regions s0))) = Some y"
    show "?Q g d' n t s0 y"
    proof (intro impI allI)
      fix rs
      assume eqs: "g = get_type \<and> d' = d \<and> (n \<longleftrightarrow> nest) \<and> (t \<longleftrightarrow> truncate')"
        and P: "P s0" and y: "y = Inr rs"
      show "\<exists>s. P s \<and> remain_data s \<le> 0 \<and> rs = regions s"
      proof (cases "0 < remain_data s0")
        case True
        with unfolded y obtain s' where
          body: "loop_body g d' n t s0 = Inr s'"
          and f: "f g d' n t s' = Some (Inr rs)"
          by (auto split: sum.splits)
        from assms(3) [OF P True] body eqs have "P s'" by simp
        with IH [OF f] eqs show ?thesis by simp
      next
        case False
        with unfolded y have "rs = regions s0" by simp
        with False P show ?thesis by auto
      qed
    qed
  qed
  with assms(2) show ?thesis by simp
qed

lemma data_block_Inr:
  assumes "data_block dt nd dr_length nv = Inr (r, len)"
  shows "\<not> is_CommentRegion r" "region_offset r = nd" "region_virt_offset r = nv"
    "d_length r = len" "is_TypeRegion r \<Longrightarrow> 0 < len"
  using assms by (auto simp: data_block_def Let_def split: if_splits)

subsection \<open>Hidden comments\<close>

lemma loop_body_buffer_length:
  "buffer_length d' = buffer_length d \<Longrightarrow>
     loop_body get_type d' nest truncate' st = loop_body get_type d nest truncate' st"
  by (simp add: loop_body_def)

lemma main_loop_buffer_length_Some:
  assumes "main_loop get_type d nest truncate' st = Some y"
    and "buffer_length d' = buffer_length d"
  shows "main_loop get_type d' nest truncate' st = Some y"
proof -
  let ?Q = "\<lambda>g d0 n t (s0 :: cr_state) (y :: error + Region list).
      \<forall>d1 :: Document. buffer_length d1 = buffer_length d0 \<longrightarrow> main_loop g d1 n t s0 = Some y"
  have "?Q get_type d nest truncate' st y"
  proof (rule main_loop.raw_induct [where P = ?Q, OF _ assms(1)])
    fix f :: "registry \<Rightarrow> Document \<Rightarrow> bool \<Rightarrow> bool \<Rightarrow> cr_state \<Rightarrow> (error + Region list) option"
    fix g d0 n t s0 y
    assume IH: "\<And>g d0 n t s0 y. f g d0 n t s0 = Some y \<Longrightarrow> ?Q g d0 n t s0 y"
      and unfolded: "(if 0 < remain_data s0
           then case loop_body g d0 n t s0 of Inl e \<Rightarrow> Some (Inl e) | Inr st' \<Rightarrow> f g d0 n t st'
           else Some (Inr (regions s0))) = Some y"
    show "?Q g d0 n t s0 y"
    proof (intro allI impI)
      fix d1 :: Document
      assume d1: "buffer_length d1 = buffer_length d0"
      show "main_loop g d1 n t s0 = Some y"
      proof (cases "0 < remain_data s0")
        case False
        with unfolded show ?thesis
          by (subst main_loop.simps) simp
      next
        case True
        show ?thesis
        proof (cases "loop_body g d0 n t s0")
          case (Inl e)
          with True unfolded d1 show ?thesis
            by (subst main_loop.simps) (simp add: loop_body_buffer_length [OF d1])
        next
          case (Inr s')
          with True unfolded have "f g d0 n t s' = Some y" by simp
          from IH [OF this] d1 have "main_loop g d1 n t s' = Some y" by simp
          with True Inr show ?thesis
            by (subst main_loop.simps) (simp add: loop_body_buffer_length [OF d1])
        qed
      qed
    qed
  qed
  with assms(2) show ?thesis by simp
qed

lemma main_loop_buffer_length:
  assumes "buffer_length d' = buffer_length d"
  shows "main_loop get_type d' nest truncate' st = main_loop get_type d nest truncate' st"
proof (cases "main_loop get_type d nest truncate' st")
  case (Some y)
  with main_loop_buffer_length_Some [OF Some assms] show ?thesis by simp
next
  case None
  show ?thesis
  proof (cases "main_loop get_type d' nest truncate' st")
    case (Some y)
    from main_loop_buffer_length_Some [OF Some assms [symmetric]] None show ?thesis by simp
  next
    case None': None
    with None show ?thesis by simp
  qed
qed

lemma hidden_no_comment_regions:
  assumes "compute_regions get_type d real_base virt_base length' ICM_HIDDEN = Some (Inr rs)"
  shows "\<forall>r \<in> set rs. \<not> is_CommentRegion r"
proof -
  let ?P = "\<lambda>s :: cr_state.
      next_comment s = [] \<and> (\<forall>r \<in> set (regions s). \<not> is_CommentRegion r)"
  let ?st = "\<lparr>next_comment = [],
      types_iter = dropWhile (\<lambda>t. range_offset t + range_length t \<le> real_base) (data_types d),
      next_data = real_base, next_virt = virt_base, remain_data = length', regions = [],
      dr_limit = []\<rparr>"
  from assms have run: "main_loop get_type d False False ?st = Some (Inr rs)"
    by (simp add: compute_regions_def Let_def)
  have "\<exists>s. ?P s \<and> remain_data s \<le> 0 \<and> rs = regions s"
  proof (rule main_loop_rule [OF run, where P = ?P])
    show "?P ?st" by simp
  next
    fix s s'
    assume P: "?P s" and body: "loop_body get_type d False False s = Inr s'"
    from body obtain st1 r len where
      emit: "emit_comments False False
          (s\<lparr>dr_limit := dropWhile (\<lambda>top. top \<le> next_data s) (dr_limit s)\<rparr>) = Inr st1"
      and block: "data_block
          (get_type (name (snd (hd (types_iter st1)))) (options (snd (hd (types_iter st1)))))
          (next_data st1)
          (clamp_to_type st1 (clamp_to_limit st1 (clamp_to_comment st1 (remain_data st1))))
          (next_virt st1) = Inr (r, len)"
      and s': "s' = push_data_region st1 r len"
      by (rule loop_body_InrE)
    from P emit have "st1 = s\<lparr>dr_limit := dropWhile (\<lambda>top. top \<le> next_data s) (dr_limit s)\<rparr>"
      by (simp add: emit_comments_no_comment)
    with P s' data_block_Inr(1) [OF block] show "?P s'"
      by (simp add: push_data_region_fields)
  qed
  then show ?thesis by auto
qed

text \<open>
  C7. In the mode \<open>ICM_HIDDEN\<close> the regions do not depend on the comments of the document:
  any other comment tree gives the same result (the same regions, the same failure, or no
  result); and no region of the result is a comment region.
\<close>

theorem hidden_mode_ignores_comments:
  "compute_regions get_type (d\<lparr>comments := cs\<rparr>) real_base virt_base length' ICM_HIDDEN =
     compute_regions get_type d real_base virt_base length' ICM_HIDDEN
   \<and> (compute_regions get_type d real_base virt_base length' ICM_HIDDEN = Some (Inr rs) \<longrightarrow>
        (\<forall>r \<in> set rs. \<not> is_CommentRegion r))"
proof
  have "main_loop get_type (d\<lparr>comments := cs\<rparr>) nest truncate' st =
      main_loop get_type d nest truncate' st" for nest truncate' st
    by (rule main_loop_buffer_length) simp
  then show "compute_regions get_type (d\<lparr>comments := cs\<rparr>) real_base virt_base length' ICM_HIDDEN =
      compute_regions get_type d real_base virt_base length' ICM_HIDDEN"
    by (simp add: compute_regions_def Let_def)
next
  show "compute_regions get_type d real_base virt_base length' ICM_HIDDEN = Some (Inr rs) \<longrightarrow>
      (\<forall>r \<in> set rs. \<not> is_CommentRegion r)"
    using hidden_no_comment_regions by blast
qed

theorem hidden_mode_ignores_comments_witness:
  "compute_regions example_types commented_document 0 0 80 ICM_FULL_INDENT =
     Some (Inr [DataRegionDocHighlight 0 16 0, CommentRegion 16 24 ''A'' False 16 24,
                DataRegionDocHighlight 16 24 16, DataRegionDocHighlight 40 40 40])
   \<and> compute_regions example_types commented_document 0 0 80 ICM_HIDDEN =
       Some (Inr [DataRegionDocHighlight 0 80 0])
   \<and> compute_regions example_types (commented_document\<lparr>comments := []\<rparr>) 0 0 80 ICM_HIDDEN =
       Some (Inr [DataRegionDocHighlight 0 80 0])
   \<and> \<not> is_CommentRegion (DataRegionDocHighlight 0 80 0)"
proof -
  have a: "compute_regions example_types commented_document 0 0 80 ICM_FULL_INDENT =
     Some (Inr [DataRegionDocHighlight 0 16 0, CommentRegion 16 24 ''A'' False 16 24,
                DataRegionDocHighlight 16 24 16, DataRegionDocHighlight 40 40 40])"
    by code_simp
  have b: "compute_regions example_types commented_document 0 0 80 ICM_HIDDEN =
       Some (Inr [DataRegionDocHighlight 0 80 0])"
    by code_simp
  show ?thesis
    using a b
      hidden_mode_ignores_comments
        [where get_type = example_types and d = commented_document and cs = "[]"
           and real_base = 0 and virt_base = 0 and length' = 80
           and rs = "[DataRegionDocHighlight 0 80 0]"]
    by simp
qed

subsection \<open>Offsets, virtual offsets and the indent of a comment\<close>

lemma in_step_emit_comments:
  "emit_comments nest truncate' s = Inr s1 \<Longrightarrow>
     in_step real_base virt_base length' s1 = in_step real_base virt_base length' s"
  by (drule emit_comments_fields) (simp add: in_step_def)

lemma in_step_push_data_region:
  "in_step real_base virt_base length' s \<Longrightarrow>
     in_step real_base virt_base length' (push_data_region s r len)"
  by (simp add: in_step_def push_data_region_fields)

lemma in_step_loop_body:
  assumes "loop_body get_type d nest truncate' s = Inr s'"
    and "in_step real_base virt_base length' s"
  shows "in_step real_base virt_base length' s'"
proof -
  from assms(1) obtain st1 r len where
    emit: "emit_comments nest truncate'
        (s\<lparr>dr_limit := dropWhile (\<lambda>top. top \<le> next_data s) (dr_limit s)\<rparr>) = Inr st1"
    and s': "s' = push_data_region st1 r len"
    by (rule loop_body_InrE)
  from assms(2) have "in_step real_base virt_base length'
      (s\<lparr>dr_limit := dropWhile (\<lambda>top. top \<le> next_data s) (dr_limit s)\<rparr>)"
    by (simp add: in_step_def)
  with in_step_emit_comments [OF emit] s' show ?thesis
    by (simp add: in_step_push_data_region)
qed

text \<open>A property of single regions that the comment regions emitted at a state in step and
  the data region emitted there have is a property of all regions of the result.\<close>

lemma compute_regions_all_regions:
  assumes run: "compute_regions get_type d real_base virt_base length' icm = Some (Inr rs)"
    and comment: "\<And>s c. in_step real_base virt_base length' s \<Longrightarrow> 0 < remain_data s \<Longrightarrow>
        key_offset c = next_data s \<Longrightarrow>
        Q (CommentRegion (key_offset c) (key_length c) (value_text c)
             (icm = ICM_SHORT \<or> icm = ICM_SHORT_INDENT) (next_virt s)
             (if icm = ICM_SHORT_INDENT \<or> icm = ICM_FULL_INDENT
              then min (key_length c) (remain_data s) else 0))"
    and data: "\<And>s dt dr_length r len. in_step real_base virt_base length' s \<Longrightarrow>
        0 < remain_data s \<Longrightarrow>
        data_block dt (next_data s) dr_length (next_virt s) = Inr (r, len) \<Longrightarrow> Q r"
  shows "\<forall>r \<in> set rs. Q r"
proof -
  let ?nest = "icm = ICM_SHORT_INDENT \<or> icm = ICM_FULL_INDENT"
  let ?tr = "icm = ICM_SHORT \<or> icm = ICM_SHORT_INDENT"
  let ?I = "in_step real_base virt_base length'"
  let ?P = "\<lambda>s :: cr_state. ?I s \<and> (\<forall>r \<in> set (regions s). Q r)"
  from run obtain st where
    main: "main_loop get_type d ?nest ?tr st = Some (Inr rs)"
    and st: "next_data st = real_base" "next_virt st = virt_base" "remain_data st = length'"
      "regions st = []"
    by (simp add: compute_regions_def Let_def)
  have "\<exists>s. ?P s \<and> remain_data s \<le> 0 \<and> rs = regions s"
  proof (rule main_loop_rule [OF main, where P = ?P])
    show "?P st" using st by (simp add: in_step_def)
  next
    fix s s'
    assume P: "?P s" and pos: "0 < remain_data s"
      and body: "loop_body get_type d ?nest ?tr s = Inr s'"
    let ?s0 = "s\<lparr>dr_limit := dropWhile (\<lambda>top. top \<le> next_data s) (dr_limit s)\<rparr>"
    from body obtain st1 r len where
      emit: "emit_comments ?nest ?tr ?s0 = Inr st1"
      and block: "data_block
          (get_type (name (snd (hd (types_iter st1)))) (options (snd (hd (types_iter st1)))))
          (next_data st1)
          (clamp_to_type st1 (clamp_to_limit st1 (clamp_to_comment st1 (remain_data st1))))
          (next_virt st1) = Inr (r, len)"
      and s': "s' = push_data_region st1 r len"
      by (rule loop_body_InrE)
    let ?E = "\<lambda>s1 :: cr_state. ?I s1 \<and> 0 < remain_data s1 \<and> (\<forall>r \<in> set (regions s1). Q r)"
    have "?E st1
        \<and> \<not> (next_comment st1 \<noteq> [] \<and> key_offset (deref (next_comment st1)) = next_data st1)"
    proof (rule emit_comments_rule [OF emit, where P = ?E])
      show "?E ?s0" using P pos by (simp add: in_step_def)
    next
      fix s1 s1'
      assume E: "?E s1" and at: "key_offset (deref (next_comment s1)) = next_data s1"
        and one: "emit_comment ?nest ?tr s1 = Inr s1'"
      from E at have "Q (CommentRegion (key_offset (deref (next_comment s1)))
          (key_length (deref (next_comment s1))) (value_text (deref (next_comment s1))) ?tr
          (next_virt s1)
          (if ?nest then min (key_length (deref (next_comment s1))) (remain_data s1) else 0))"
        by (intro comment) simp_all
      with E show "?E s1'"
        by (simp add: emit_comment_Inr [OF one] in_step_def)
    qed
    then have E: "?E st1" by simp
    with data [OF _ _ block] have "Q r" by simp
    with E s' show "?P s'"
      by (simp add: push_data_region_fields in_step_push_data_region)
  qed
  then show ?thesis by auto
qed

lemma plain_compute_regions:
  assumes c: "comments d = []"
    and t: "data_types d = [((0, BitOffset (buffer_length d) 0), ti)]"
    and f: "\<forall>dt. get_type (name ti) (options ti) = Some dt \<longrightarrow> region_factory dt = None"
    and r: "0 \<le> real_base" "real_base + 40 \<le> BitOffset (buffer_length d) 0"
  shows "compute_regions get_type d real_base virt_base 40 icm =
    Some (Inr [DataRegionDocHighlight real_base 40 virt_base])"
proof -
  have skip: "skip_comments (first_root_node []) real_base = []"
    by (subst skip_comments.simps) (simp add: first_root_node_def)
  have block: "data_block (get_type (name ti) (options ti)) real_base 40 virt_base =
      Inr (DataRegionDocHighlight real_base 40 virt_base, 40)"
  proof (cases "get_type (name ti) (options ti)")
    case None
    then show ?thesis
      by (simp add: data_block_def BitOffset_def byte_aligned_def smod_int_alt_def)
  next
    case (Some dt)
    with f have "region_factory dt = None" by simp
    with Some show ?thesis
      by (simp add: data_block_def BitOffset_def byte_aligned_def smod_int_alt_def)
  qed
  let ?s = "\<lparr>next_comment = [], types_iter = [((0, BitOffset (buffer_length d) 0), ti)],
      next_data = real_base, next_virt = virt_base, remain_data = 40, regions = [],
      dr_limit = []\<rparr>"
  have body: "loop_body get_type d nest tr ?s =
      Inr (push_data_region ?s (DataRegionDocHighlight real_base 40 virt_base) 40)" for nest tr
    using r block
    by (simp add: loop_body_def emit_comments_no_comment clamp_to_comment_def limit_reached_def
        clamp_to_limit_def clamp_to_type_def range_offset_def range_length_def Let_def)
  show ?thesis
    using r
    by (simp add: compute_regions_def c t skip Let_def range_offset_def range_length_def
        main_loop.simps [of _ _ _ _ ?s] body)
       (simp add: main_loop.simps push_data_region_def Let_def)
qed

text \<open>
  C5. Every region of a run of \<open>compute_regions\<close> from \<open>real_base\<close> and \<open>virt_base\<close> has its
  virtual offset (for a comment region: the offset of its indent) at the distance
  \<open>virt_base - real_base\<close> of its offset. For the two segments that map the virtual bytes
  0..4 to the file offset 100 and the virtual bytes 5..9 to the file offset 200, in a file of
  at least 205 bytes without comments and with one type without a region factory over the
  whole file, the virtual view is two regions \<open>DataRegionDocHighlight\<close> of five bytes, in this
  order, in every mode of the comments.
\<close>

theorem virtual_offset_in_lockstep:
  "(compute_regions get_type d real_base virt_base length' icm = Some (Inr rs) \<longrightarrow>
      (\<forall>r \<in> set rs. region_virt_offset r - region_offset r = virt_base - real_base))
   \<and> (comments d' = [] \<and> data_types d' = [((0, BitOffset (buffer_length d') 0), ti)]
       \<and> (\<forall>dt. get_type' (name ti) (options ti) = Some dt \<longrightarrow> region_factory dt = None)
       \<and> 205 \<le> buffer_length d' \<and> virt_to_real_segs d' = [((0, 5), 100), ((5, 5), 200)] \<longrightarrow>
       prepare_regions get_type' d' DDM_VIRTUAL icm' =
         Some (Inr [DataRegionDocHighlight (BitOffset 100 0) (BitOffset 5 0) (BitOffset 0 0),
                    DataRegionDocHighlight (BitOffset 200 0) (BitOffset 5 0) (BitOffset 5 0)]))"
proof (intro conjI impI)
  assume "compute_regions get_type d real_base virt_base length' icm = Some (Inr rs)"
  then show "\<forall>r \<in> set rs. region_virt_offset r - region_offset r = virt_base - real_base"
  proof (rule compute_regions_all_regions)
    fix s dt dr_length r len
    assume "in_step real_base virt_base length' s"
      and "data_block dt (next_data s) dr_length (next_virt s) = Inr (r, len)"
    then show "region_virt_offset r - region_offset r = virt_base - real_base"
      by (simp add: data_block_Inr in_step_def)
  qed (simp add: in_step_def)
next
  assume plain: "comments d' = [] \<and> data_types d' = [((0, BitOffset (buffer_length d') 0), ti)]
       \<and> (\<forall>dt. get_type' (name ti) (options ti) = Some dt \<longrightarrow> region_factory dt = None)
       \<and> 205 \<le> buffer_length d' \<and> virt_to_real_segs d' = [((0, 5), 100), ((5, 5), 200)]"
  then have d': "comments d' = []"
    "data_types d' = [((0, BitOffset (buffer_length d') 0), ti)]"
    "\<forall>dt. get_type' (name ti) (options ti) = Some dt \<longrightarrow> region_factory dt = None"
    and long: "205 \<le> buffer_length d'"
    by simp_all
  from long have "compute_regions get_type' d' (BitOffset 100 0) (BitOffset 0 0) 40 icm' =
      Some (Inr [DataRegionDocHighlight (BitOffset 100 0) 40 (BitOffset 0 0)])"
    by (intro plain_compute_regions
          [where d = d' and ti = ti and get_type = get_type', OF d'])
       (simp_all add: BitOffset_def)
  moreover from long
  have "compute_regions get_type' d' (BitOffset 200 0) (BitOffset 5 0) 40 icm' =
      Some (Inr [DataRegionDocHighlight (BitOffset 200 0) 40 (BitOffset 5 0)])"
    by (intro plain_compute_regions
          [where d = d' and ti = ti and get_type = get_type', OF d'])
       (simp_all add: BitOffset_def)
  moreover have "BitOffset 5 0 = 40"
    by (simp add: BitOffset_def)
  ultimately show "prepare_regions get_type' d' DDM_VIRTUAL icm' =
         Some (Inr [DataRegionDocHighlight (BitOffset 100 0) (BitOffset 5 0) (BitOffset 0 0),
                    DataRegionDocHighlight (BitOffset 200 0) (BitOffset 5 0) (BitOffset 5 0)])"
    using plain by (simp add: prepare_regions_def range_offset_def range_length_def)
qed

theorem virtual_offset_in_lockstep_witness:
  "compute_regions example_types commented_document 0 800 80 ICM_FULL_INDENT =
     Some (Inr [DataRegionDocHighlight 0 16 800, CommentRegion 16 24 ''A'' False 816 24,
                DataRegionDocHighlight 16 24 816, DataRegionDocHighlight 40 40 840])
   \<and> region_virt_offset (CommentRegion 16 24 ''A'' False 816 24)
         - region_offset (CommentRegion 16 24 ''A'' False 816 24) = 800 - 0
   \<and> region_virt_offset (DataRegionDocHighlight 40 40 840)
         - region_offset (DataRegionDocHighlight 40 40 840) = 800 - 0
   \<and> comments two_segment_document = []
   \<and> data_types two_segment_document =
       [((0, BitOffset (buffer_length two_segment_document) 0), untyped)]
   \<and> example_types (name untyped) (options untyped) =
       Some \<lparr>word_size = 8, region_fixed_size = 0, region_factory = None\<rparr>
   \<and> (205 :: int) \<le> buffer_length two_segment_document
   \<and> virt_to_real_segs two_segment_document = [((0, 5), 100), ((5, 5), 200)]
   \<and> prepare_regions example_types two_segment_document DDM_VIRTUAL ICM_SHORT_INDENT =
       Some (Inr [DataRegionDocHighlight 800 40 0, DataRegionDocHighlight 1600 40 40])"
proof -
  have a: "compute_regions example_types commented_document 0 800 80 ICM_FULL_INDENT =
     Some (Inr [DataRegionDocHighlight 0 16 800, CommentRegion 16 24 ''A'' False 816 24,
                DataRegionDocHighlight 16 24 816, DataRegionDocHighlight 40 40 840])"
    by code_simp
  have b: "comments two_segment_document = []"
    "data_types two_segment_document =
       [((0, BitOffset (buffer_length two_segment_document) 0), untyped)]"
    "example_types (name untyped) (options untyped) =
       Some \<lparr>word_size = 8, region_fixed_size = 0, region_factory = None\<rparr>"
    "(205 :: int) \<le> buffer_length two_segment_document"
    "virt_to_real_segs two_segment_document = [((0, 5), 100), ((5, 5), 200)]"
    by (simp_all add: two_segment_document_def plain_document_def untyped_def example_types_def
        BitOffset_def)
  note inst = virtual_offset_in_lockstep
        [where get_type = example_types and d = commented_document and real_base = 0
           and virt_base = 800 and length' = 80 and icm = ICM_FULL_INDENT
           and rs = "[DataRegionDocHighlight 0 16 800, CommentRegion 16 24 ''A'' False 816 24,
                      DataRegionDocHighlight 16 24 816, DataRegionDocHighlight 40 40 840]"
           and get_type' = example_types and d' = two_segment_document and ti = untyped
           and icm' = ICM_SHORT_INDENT]
  from inst a have 1: "region_virt_offset (CommentRegion 16 24 ''A'' False 816 24)
         - region_offset (CommentRegion 16 24 ''A'' False 816 24) = 800 - 0"
    "region_virt_offset (DataRegionDocHighlight 40 40 840)
         - region_offset (DataRegionDocHighlight 40 40 840) = 800 - 0"
    by simp_all
  from inst b have 2: "prepare_regions example_types two_segment_document DDM_VIRTUAL
      ICM_SHORT_INDENT =
       Some (Inr [DataRegionDocHighlight 800 40 0, DataRegionDocHighlight 1600 40 40])"
    by (simp add: BitOffset_def)
  from a b 1 2 show ?thesis by blast
qed

text \<open>
  C6. Every comment region of a run of \<open>compute_regions\<close> over \<open>length'\<close> from \<open>real_base\<close> and
  \<open>virt_base\<close> lies before the end of the range, and its indent starts at the virtual
  position of its offset. The length of the indent is zero in the modes that do not nest, and
  in the nesting modes the smaller of the comment's length and the length that remains from
  its offset to the end of the range. So a comment of length zero has an indent of length
  zero in every mode, and the indent is not empty exactly when the mode nests and the comment
  has a positive length. That is also exactly when the step that emits a comment pushes the
  end of the comment on the stack of limits.
\<close>

theorem comment_indent:
  "(compute_regions get_type d real_base virt_base length' icm = Some (Inr rs) \<longrightarrow>
      (\<forall>r \<in> set rs. is_CommentRegion r \<longrightarrow>
         c_offset r < real_base + length'
         \<and> indent_offset r = virt_base + (c_offset r - real_base)
         \<and> indent_length r =
             (if icm = ICM_SHORT_INDENT \<or> icm = ICM_FULL_INDENT
              then min (c_length r) (real_base + length' - c_offset r) else 0)
         \<and> (c_length r = 0 \<longrightarrow> indent_length r = 0)
         \<and> (0 < indent_length r \<longleftrightarrow>
              (icm = ICM_SHORT_INDENT \<or> icm = ICM_FULL_INDENT) \<and> 0 < c_length r)))
   \<and> (emit_comment nest truncate' st = Inr st' \<longrightarrow>
        dr_limit st' =
          (if nest \<and> 0 < key_length (deref (next_comment st))
           then (key_offset (deref (next_comment st)) + key_length (deref (next_comment st)))
                  # dr_limit st
           else dr_limit st))"
proof
  let ?Q = "\<lambda>r. is_CommentRegion r \<longrightarrow>
         c_offset r < real_base + length'
         \<and> indent_offset r = virt_base + (c_offset r - real_base)
         \<and> indent_length r =
             (if icm = ICM_SHORT_INDENT \<or> icm = ICM_FULL_INDENT
              then min (c_length r) (real_base + length' - c_offset r) else 0)
         \<and> (c_length r = 0 \<longrightarrow> indent_length r = 0)
         \<and> (0 < indent_length r \<longleftrightarrow>
              (icm = ICM_SHORT_INDENT \<or> icm = ICM_FULL_INDENT) \<and> 0 < c_length r)"
  show "compute_regions get_type d real_base virt_base length' icm = Some (Inr rs) \<longrightarrow>
      (\<forall>r \<in> set rs. ?Q r)"
  proof
    assume "compute_regions get_type d real_base virt_base length' icm = Some (Inr rs)"
    then show "\<forall>r \<in> set rs. ?Q r"
    proof (rule compute_regions_all_regions)
      fix s dt dr_length r len
      assume "data_block dt (next_data s) dr_length (next_virt s) = Inr (r, len)"
      then show "?Q r" by (simp add: data_block_Inr)
    next
      fix s :: cr_state and c
      assume "in_step real_base virt_base length' s" "0 < remain_data s"
        "key_offset c = next_data s"
      then have "next_virt s = virt_base + (key_offset c - real_base)"
        "remain_data s = real_base + length' - key_offset c"
        "key_offset c < real_base + length'"
        by (simp_all add: in_step_def)
      then show "?Q (CommentRegion (key_offset c) (key_length c) (value_text c)
             (icm = ICM_SHORT \<or> icm = ICM_SHORT_INDENT) (next_virt s)
             (if icm = ICM_SHORT_INDENT \<or> icm = ICM_FULL_INDENT
              then min (key_length c) (remain_data s) else 0))"
        by simp
    qed
  qed
next
  show "emit_comment nest truncate' st = Inr st' \<longrightarrow>
        dr_limit st' =
          (if nest \<and> 0 < key_length (deref (next_comment st))
           then (key_offset (deref (next_comment st)) + key_length (deref (next_comment st)))
                  # dr_limit st
           else dr_limit st)"
    by (auto dest!: emit_comment_Inr)
qed

theorem comment_indent_witness:
  "compute_regions example_types nested_document 0 0 80 ICM_FULL_INDENT =
     Some (Inr [DataRegionDocHighlight 0 16 0, CommentRegion 16 24 ''A'' False 16 24,
                CommentRegion 16 0 ''B'' False 16 0, DataRegionDocHighlight 16 24 16,
                CommentRegion 40 0 ''C'' False 40 0, DataRegionDocHighlight 40 40 40])
   \<and> indent_length (CommentRegion 16 24 ''A'' False 16 24) = min 24 (0 + 80 - 16)
   \<and> indent_length (CommentRegion 16 0 ''B'' False 16 0) = 0
   \<and> emit_comment True False
        \<lparr>next_comment = first_root_node [CNode 0 24 ''A'' []], types_iter = [], next_data = 0,
         next_virt = 0, remain_data = 80, regions = [], dr_limit = []\<rparr> =
       Inr \<lparr>next_comment = [], types_iter = [], next_data = 0, next_virt = 0, remain_data = 80,
            regions = [CommentRegion 0 24 ''A'' False 0 24], dr_limit = [24]\<rparr>
   \<and> dr_limit \<lparr>next_comment = [], types_iter = [], next_data = 0, next_virt = 0,
         remain_data = 80, regions = [CommentRegion 0 24 ''A'' False 0 24], dr_limit = [24]\<rparr> =
       [0 + 24]"
proof -
  have a: "compute_regions example_types nested_document 0 0 80 ICM_FULL_INDENT =
     Some (Inr [DataRegionDocHighlight 0 16 0, CommentRegion 16 24 ''A'' False 16 24,
                CommentRegion 16 0 ''B'' False 16 0, DataRegionDocHighlight 16 24 16,
                CommentRegion 40 0 ''C'' False 40 0, DataRegionDocHighlight 40 40 40])"
    by code_simp
  have b: "emit_comment True False
        \<lparr>next_comment = first_root_node [CNode 0 24 ''A'' []], types_iter = [], next_data = 0,
         next_virt = 0, remain_data = 80, regions = [], dr_limit = []\<rparr> =
       Inr \<lparr>next_comment = [], types_iter = [], next_data = 0, next_virt = 0, remain_data = 80,
            regions = [CommentRegion 0 24 ''A'' False 0 24], dr_limit = [24]\<rparr>"
    by code_simp
  show ?thesis
    using a b
      comment_indent
        [where get_type = example_types and d = nested_document and real_base = 0
           and virt_base = 0 and length' = 80 and icm = ICM_FULL_INDENT
           and rs = "[DataRegionDocHighlight 0 16 0, CommentRegion 16 24 ''A'' False 16 24,
                CommentRegion 16 0 ''B'' False 16 0, DataRegionDocHighlight 16 24 16,
                CommentRegion 40 0 ''C'' False 40 0, DataRegionDocHighlight 40 40 40]"
           and nest = True and truncate' = False
           and st = "\<lparr>next_comment = first_root_node [CNode 0 24 ''A'' []], types_iter = [],
                next_data = 0, next_virt = 0, remain_data = 80, regions = [], dr_limit = []\<rparr>"
           and st' = "\<lparr>next_comment = [], types_iter = [], next_data = 0, next_virt = 0,
                remain_data = 80, regions = [CommentRegion 0 24 ''A'' False 0 24],
                dr_limit = [24]\<rparr>"]
    by simp
qed

subsection \<open>The length of a region built by a type's factory\<close>

lemma smod_nonneg_pos:
  fixes a b :: int
  assumes "0 \<le> a" "0 < b"
  shows "a smod b = a mod b"
  using assms by (simp add: smod_int_alt_def sgn_if)

text \<open>
  C2. When the type has a region factory and \<open>dr_length\<close> is at least its fixed size, the turn
  builds the region with the factory, at the position of the turn, and its length is settled
  as follows. When the fixed size is positive and \<open>dr_length\<close> exceeds it, the length is the
  fixed size. Otherwise the length is \<open>dr_length\<close> less its remainder by the word size (the
  largest multiple of the word size that is at most \<open>dr_length\<close>): when that is positive the
  factory builds a region of that length, and when it is not, the assertion fails and no
  region is built. So a region that the factory builds has a positive length, here and in
  every list that \<open>compute_regions\<close> returns.
\<close>

theorem type_region_length:
  "(dt = Some t \<and> region_factory t = Some f \<and> region_fixed_size t \<le> dr_length \<longrightarrow>
      (0 < region_fixed_size t \<and> region_fixed_size t < dr_length \<longrightarrow>
         data_block dt nd dr_length nv =
           Inr (TypeRegion f nd (region_fixed_size t) nv, region_fixed_size t))
      \<and> (\<not> (0 < region_fixed_size t \<and> region_fixed_size t < dr_length) \<and> word_size t \<noteq> 0 \<longrightarrow>
           (0 < dr_length - dr_length smod word_size t \<longrightarrow>
              data_block dt nd dr_length nv =
                Inr (TypeRegion f nd (dr_length - dr_length smod word_size t) nv,
                     dr_length - dr_length smod word_size t))
           \<and> (dr_length - dr_length smod word_size t \<le> 0 \<longrightarrow>
                data_block dt nd dr_length nv = Inl (AssertionFailed Length_Positive))
           \<and> (0 < word_size t \<and> 0 \<le> dr_length \<longrightarrow>
                word_size t dvd dr_length - dr_length smod word_size t
                \<and> dr_length - dr_length smod word_size t \<le> dr_length
                \<and> dr_length < dr_length - dr_length smod word_size t + word_size t))
      \<and> (\<forall>r len. data_block dt nd dr_length nv = Inr (r, len) \<longrightarrow>
            r = TypeRegion f nd len nv \<and> 0 < len))
   \<and> (compute_regions get_type d real_base virt_base length' icm = Some (Inr rs) \<longrightarrow>
        (\<forall>r \<in> set rs. is_TypeRegion r \<longrightarrow> 0 < d_length r))"
proof (intro conjI impI allI)
  assume run: "compute_regions get_type d real_base virt_base length' icm = Some (Inr rs)"
  then show "\<forall>r \<in> set rs. is_TypeRegion r \<longrightarrow> 0 < d_length r"
    by (rule compute_regions_all_regions) (simp_all add: data_block_Inr)
next
  assume t: "dt = Some t \<and> region_factory t = Some f \<and> region_fixed_size t \<le> dr_length"
    and "0 < region_fixed_size t \<and> region_fixed_size t < dr_length"
  then show "data_block dt nd dr_length nv =
      Inr (TypeRegion f nd (region_fixed_size t) nv, region_fixed_size t)"
    by (simp add: data_block_def)
next
  assume t: "dt = Some t \<and> region_factory t = Some f \<and> region_fixed_size t \<le> dr_length"
    and other: "\<not> (0 < region_fixed_size t \<and> region_fixed_size t < dr_length)
      \<and> word_size t \<noteq> 0"
    and "0 < dr_length - dr_length smod word_size t"
  then show "data_block dt nd dr_length nv =
      Inr (TypeRegion f nd (dr_length - dr_length smod word_size t) nv,
           dr_length - dr_length smod word_size t)"
    by (auto simp: data_block_def Let_def)
next
  assume t: "dt = Some t \<and> region_factory t = Some f \<and> region_fixed_size t \<le> dr_length"
    and other: "\<not> (0 < region_fixed_size t \<and> region_fixed_size t < dr_length)
      \<and> word_size t \<noteq> 0"
    and "dr_length - dr_length smod word_size t \<le> 0"
  then show "data_block dt nd dr_length nv = Inl (AssertionFailed Length_Positive)"
    by (auto simp: data_block_def Let_def)
next
  assume pos: "0 < word_size t \<and> 0 \<le> dr_length"
  then have m: "dr_length smod word_size t = dr_length mod word_size t"
    by (simp add: smod_nonneg_pos)
  from pos show "word_size t dvd dr_length - dr_length smod word_size t"
    unfolding m by (simp add: minus_mod_eq_mult_div)
  from pos show "dr_length - dr_length smod word_size t \<le> dr_length"
    unfolding m by simp
  from pos show "dr_length < dr_length - dr_length smod word_size t + word_size t"
    unfolding m by simp
next
  fix r len
  assume t: "dt = Some t \<and> region_factory t = Some f \<and> region_fixed_size t \<le> dr_length"
    and block: "data_block dt nd dr_length nv = Inr (r, len)"
  from t block show "r = TypeRegion f nd len nv"
    by (auto simp: data_block_def Let_def split: if_splits)
  from t block show "0 < len"
    by (auto simp: data_block_def Let_def split: if_splits)
qed

theorem type_region_length_witness:
  "example_types ''u16'' [] =
     Some \<lparr>word_size = 16, region_fixed_size = 16, region_factory = Some ''u16''\<rparr>
   \<and> example_types ''w32'' [] =
       Some \<lparr>word_size = 32, region_fixed_size = 0, region_factory = Some ''w32''\<rparr>
   \<and> data_block (example_types ''u16'' []) 0 48 0 = Inr (TypeRegion ''u16'' 0 16 0, 16)
   \<and> data_block (example_types ''u16'' []) 32 16 32 = Inr (TypeRegion ''u16'' 32 16 32, 16)
   \<and> data_block (example_types ''w32'' []) 64 48 0 = Inr (TypeRegion ''w32'' 64 32 0, 32)
   \<and> (32 :: int) dvd 48 - 48 smod 32 \<and> (48 :: int) < 48 - 48 smod 32 + 32
   \<and> data_block (example_types ''w32'' []) 64 16 0 = Inl (AssertionFailed Length_Positive)
   \<and> compute_regions example_types u16_pair_document 0 0 32 ICM_FULL_INDENT =
       Some (Inr [TypeRegion ''u16'' 0 16 0, TypeRegion ''u16'' 16 16 16])
   \<and> 0 < d_length (TypeRegion ''u16'' 0 16 0) \<and> 0 < d_length (TypeRegion ''u16'' 16 16 16)"
proof -
  let ?u16 = "\<lparr>word_size = 16, region_fixed_size = 16, region_factory = Some ''u16''\<rparr>"
  let ?w32 = "\<lparr>word_size = 32, region_fixed_size = 0, region_factory = Some ''w32''\<rparr>"
  have u: "example_types ''u16'' [] = Some ?u16"
    by (simp add: example_types_def BitOffset_def)
  have w: "example_types ''w32'' [] = Some ?w32"
    by (simp add: example_types_def BitOffset_def)
  have c: "compute_regions example_types u16_pair_document 0 0 32 ICM_FULL_INDENT =
       Some (Inr [TypeRegion ''u16'' 0 16 0, TypeRegion ''u16'' 16 16 16])"
    by code_simp
  have m: "(48 :: int) smod 32 = 16" "(16 :: int) smod 32 = 16" "(16 :: int) smod 16 = 0"
    by code_simp+
  note fixed = type_region_length
      [where dt = "example_types ''u16'' []" and t = ?u16 and f = "''u16''"
         and dr_length = 48 and nd = 0 and nv = 0,
       THEN conjunct1, THEN mp, THEN conjunct1, THEN mp]
  note exact = type_region_length
      [where dt = "example_types ''u16'' []" and t = ?u16 and f = "''u16''"
         and dr_length = 16 and nd = 32 and nv = 32,
       THEN conjunct1, THEN mp, THEN conjunct2, THEN conjunct1, THEN mp]
  note long = type_region_length
      [where dt = "example_types ''w32'' []" and t = ?w32 and f = "''w32''"
         and dr_length = 48 and nd = 64 and nv = 0,
       THEN conjunct1, THEN mp, THEN conjunct2, THEN conjunct1, THEN mp]
  note short = type_region_length
      [where dt = "example_types ''w32'' []" and t = ?w32 and f = "''w32''"
         and dr_length = 16 and nd = 64 and nv = 0,
       THEN conjunct1, THEN mp, THEN conjunct2, THEN conjunct1, THEN mp]
  have 1: "data_block (example_types ''u16'' []) 0 48 0 = Inr (TypeRegion ''u16'' 0 16 0, 16)"
    using fixed u by simp
  have 2: "data_block (example_types ''u16'' []) 32 16 32 = Inr (TypeRegion ''u16'' 32 16 32, 16)"
    using exact [THEN conjunct1, THEN mp] u m(3) by simp
  have 3: "data_block (example_types ''w32'' []) 64 48 0 = Inr (TypeRegion ''w32'' 64 32 0, 32)"
    using long [THEN conjunct1, THEN mp] w m(1) by simp
  have 4: "(32 :: int) dvd 48 - 48 smod 32 \<and> (48 :: int) < 48 - 48 smod 32 + 32"
    using long [THEN conjunct2, THEN conjunct2, THEN mp] w by simp
  have 5: "data_block (example_types ''w32'' []) 64 16 0 = Inl (AssertionFailed Length_Positive)"
    using short [THEN conjunct2, THEN conjunct1, THEN mp] w m(2) by simp
  have 6: "0 < d_length (TypeRegion ''u16'' 0 16 0) \<and> 0 < d_length (TypeRegion ''u16'' 16 16 16)"
    using type_region_length [THEN conjunct2, THEN mp, OF c]
    by simp
  from u w c 1 2 3 4 5 6 show ?thesis
    by blast
qed

subsection \<open>The empty file\<close>

lemma compute_regions_empty:
  "length' \<le> 0 \<Longrightarrow> compute_regions get_type d real_base virt_base length' icm = Some (Inr [])"
  by (simp add: compute_regions_def Let_def main_loop.simps)

text \<open>
  C9, as amended. Over a length of zero \<open>compute_regions\<close> returns no region. For a
  document whose buffer is empty, the region list
  that \<open>repopulate_regions\<close> gives to the document control in the file view is one region, a
  \<open>DataRegionDocHighlight\<close> of length zero at offset zero, which the file view itself adds;
  in the virtual view of an empty segment map that region follows the comment region that
  tells that no virtual section is defined.
\<close>

theorem empty_file_single_region:
  "buffer_length d = 0 \<Longrightarrow>
     compute_regions get_type d real_base virt_base 0 icm = Some (Inr [])
     \<and> prepare_regions get_type d DDM_NORMAL icm = Some (Inr [DataRegionDocHighlight 0 0 0])
     \<and> (doc tab = d \<and> \<not> repopulate_regions_frozen tab
          \<and> document_display_mode tab = DDM_NORMAL \<and> inline_comment_mode tab = icm \<longrightarrow>
          repopulate_regions get_type tab =
            Some (Inr (tab\<lparr>doc_ctrl := doc_ctrl tab @ [[DataRegionDocHighlight 0 0 0]]\<rparr>)))
     \<and> (virt_to_real_segs d = [] \<longrightarrow>
          prepare_regions get_type d DDM_VIRTUAL icm =
            Some (Inr [CommentRegion (BitOffset (- 1) 0) 0 C_TEXT False (BitOffset (- 1) 0) 0,
                       DataRegionDocHighlight 0 0 0]))"
proof -
  assume empty: "buffer_length d = 0"
  have view: "file_view get_type d icm pre = Some (Inr (pre @ [DataRegionDocHighlight 0 0 0]))"
    for pre
    using empty
    by (simp add: file_view_def finish_file_regions_def BitOffset_def compute_regions_empty)
  have normal: "prepare_regions get_type d DDM_NORMAL icm =
      Some (Inr [DataRegionDocHighlight 0 0 0])"
    using view [of "[]"] by (simp add: prepare_regions_def)
  have virtual: "prepare_regions get_type d DDM_VIRTUAL icm =
      Some (Inr [CommentRegion (BitOffset (- 1) 0) 0 C_TEXT False (BitOffset (- 1) 0) 0,
                 DataRegionDocHighlight 0 0 0])"
    if "virt_to_real_segs d = []"
    using that
      view [of "[CommentRegion (BitOffset (- 1) 0) 0 C_TEXT False (BitOffset (- 1) 0) 0]"]
    by (simp add: prepare_regions_def)
  have tab: "repopulate_regions get_type tab =
      Some (Inr (tab\<lparr>doc_ctrl := doc_ctrl tab @ [[DataRegionDocHighlight 0 0 0]]\<rparr>))"
    if "doc tab = d \<and> \<not> repopulate_regions_frozen tab
          \<and> document_display_mode tab = DDM_NORMAL \<and> inline_comment_mode tab = icm"
    using that normal by (simp add: repopulate_regions_def)
  from normal virtual tab show ?thesis
    by (simp add: compute_regions_empty)
qed

theorem empty_file_single_region_witness:
  "buffer_length empty_document = 0
   \<and> compute_regions example_types empty_document 0 0 0 ICM_FULL_INDENT = Some (Inr [])
   \<and> prepare_regions example_types empty_document DDM_NORMAL ICM_FULL_INDENT =
       Some (Inr [DataRegionDocHighlight 0 0 0])
   \<and> repopulate_regions example_types (new_tab empty_document) =
       Some (Inr ((new_tab empty_document)\<lparr>doc_ctrl := [[DataRegionDocHighlight 0 0 0]]\<rparr>))
   \<and> prepare_regions example_types empty_document DDM_VIRTUAL ICM_FULL_INDENT =
       Some (Inr [CommentRegion (- 8) 0 C_TEXT False (- 8) 0, DataRegionDocHighlight 0 0 0])"
  using empty_file_single_region
    [where d = empty_document and tab = "new_tab empty_document" and icm = ICM_FULL_INDENT
       and get_type = example_types and real_base = 0 and virt_base = 0]
  by (simp add: empty_document_def new_tab_def BitOffset_def)

text \<open>
  C9, as the claim states it, fails: over the empty domain of the empty file
  \<open>compute_regions\<close> returns no region, not one; and the region list of the empty file has
  two regions in the virtual view of an empty segment map.
\<close>

theorem empty_file_single_region_counterexample:
  "compute_regions example_types empty_document 0 0 (BitOffset (buffer_length empty_document) 0)
       ICM_FULL_INDENT = Some (Inr [])
   \<and> prepare_regions example_types empty_document DDM_VIRTUAL ICM_FULL_INDENT =
       Some (Inr [CommentRegion (- 8) 0 C_TEXT False (- 8) 0, DataRegionDocHighlight 0 0 0])"
  by code_simp

subsection \<open>The end of the file view\<close>



lemma file_view_result:
  assumes "compute_regions get_type d 0 0 (BitOffset (buffer_length d) 0) icm = Some (Inr rs)"
    and "rs \<noteq> []"
  shows "file_view get_type d icm pre =
      Some (Inr (pre @ (if is_DataRegionDocHighlight (last rs) then rs
                        else rs @ [DataRegionDocHighlight (BitOffset (buffer_length d) 0) 0
                                     (BitOffset (buffer_length d) 0)])))"
  using assms by (simp add: file_view_def finish_file_regions_def)




lemma virtual_view_concat:
  "\<forall>i \<in> set segs. compute_regions get_type d (BitOffset (snd i) 0) (BitOffset (range_offset i) 0)
       (BitOffset (range_length i) 0) icm = Some (Inr (f i)) \<Longrightarrow>
     virtual_view get_type d icm segs regions' = Some (Inr (regions' @ concat (map f segs)))"
  by (induction segs arbitrary: regions') (simp_all add: Let_def)

text \<open>
  C4. When the regions of the whole file end with a region that is not a
  \<open>DataRegionDocHighlight\<close>, a region built by a type's factory or a \<open>BitArrayRegion\<close>, the
  file view of \<open>repopulate_regions\<close> is those regions followed by one
  \<open>DataRegionDocHighlight\<close> of length zero at the end of the buffer; when they end with a
  \<open>DataRegionDocHighlight\<close>, it is those regions and no more. The virtual view of a
  non-empty segment map is the concatenation of the regions of its segments, with nothing
  appended, whatever the last segment ends with.
\<close>

theorem anchor_unless_final_plain_data:
  "(compute_regions get_type d 0 0 (BitOffset (buffer_length d) 0) icm = Some (Inr rs)
      \<and> rs \<noteq> [] \<longrightarrow>
      (\<not> is_DataRegionDocHighlight (last rs) \<longrightarrow>
         prepare_regions get_type d DDM_NORMAL icm =
           Some (Inr (rs @ [DataRegionDocHighlight (BitOffset (buffer_length d) 0) 0
                              (BitOffset (buffer_length d) 0)]))
         \<and> file_view get_type d icm pre =
             Some (Inr (pre @ rs @ [DataRegionDocHighlight (BitOffset (buffer_length d) 0) 0
                                      (BitOffset (buffer_length d) 0)])))
      \<and> (is_DataRegionDocHighlight (last rs) \<longrightarrow>
           prepare_regions get_type d DDM_NORMAL icm = Some (Inr rs)
           \<and> file_view get_type d icm pre = Some (Inr (pre @ rs))))
   \<and> (virt_to_real_segs d \<noteq> [] \<longrightarrow>
        (\<forall>i \<in> set (virt_to_real_segs d).
            compute_regions get_type d (BitOffset (snd i) 0) (BitOffset (range_offset i) 0)
              (BitOffset (range_length i) 0) icm = Some (Inr (f i))) \<longrightarrow>
        prepare_regions get_type d DDM_VIRTUAL icm =
          Some (Inr (concat (map f (virt_to_real_segs d)))))"
proof (intro conjI impI)
  assume run: "compute_regions get_type d 0 0 (BitOffset (buffer_length d) 0) icm = Some (Inr rs)
      \<and> rs \<noteq> []"
  {
    assume last: "\<not> is_DataRegionDocHighlight (last rs)"
    from run last file_view_result [of get_type d icm rs "[]"]
    show "prepare_regions get_type d DDM_NORMAL icm =
        Some (Inr (rs @ [DataRegionDocHighlight (BitOffset (buffer_length d) 0) 0
                           (BitOffset (buffer_length d) 0)]))"
      by (simp add: prepare_regions_def)
    from run last file_view_result [of get_type d icm rs pre]
    show "file_view get_type d icm pre =
        Some (Inr (pre @ rs @ [DataRegionDocHighlight (BitOffset (buffer_length d) 0) 0
                                 (BitOffset (buffer_length d) 0)]))"
      by simp
  }
  {
    assume last: "is_DataRegionDocHighlight (last rs)"
    from run last file_view_result [of get_type d icm rs "[]"]
    show "prepare_regions get_type d DDM_NORMAL icm = Some (Inr rs)"
      by (simp add: prepare_regions_def)
    from run last file_view_result [of get_type d icm rs pre]
    show "file_view get_type d icm pre = Some (Inr (pre @ rs))"
      by simp
  }
next
  assume segs: "virt_to_real_segs d \<noteq> []"
  assume "\<forall>i \<in> set (virt_to_real_segs d).
            compute_regions get_type d (BitOffset (snd i) 0) (BitOffset (range_offset i) 0)
              (BitOffset (range_length i) 0) icm = Some (Inr (f i))"
  then have "virtual_view get_type d icm (virt_to_real_segs d) [] =
      Some (Inr ([] @ concat (map f (virt_to_real_segs d))))"
    by (rule virtual_view_concat)
  with segs show "prepare_regions get_type d DDM_VIRTUAL icm =
      Some (Inr (concat (map f (virt_to_real_segs d))))"
    by (simp add: prepare_regions_def)
qed

theorem anchor_unless_final_plain_data_witness:
  "compute_regions example_types typed_document 0 0
       (BitOffset (buffer_length typed_document) 0) ICM_FULL_INDENT =
     Some (Inr [TypeRegion ''u16'' 0 16 0])
   \<and> [TypeRegion ''u16'' 0 16 0] \<noteq> []
   \<and> \<not> is_DataRegionDocHighlight (last [TypeRegion ''u16'' 0 16 0])
   \<and> prepare_regions example_types typed_document DDM_NORMAL ICM_FULL_INDENT =
       Some (Inr [TypeRegion ''u16'' 0 16 0, DataRegionDocHighlight 16 0 16])
   \<and> compute_regions example_types bit_comment_document 0 0
         (BitOffset (buffer_length bit_comment_document) 0) ICM_FULL_INDENT =
       Some (Inr [BitArrayRegion 0 4 0, CommentRegion 4 0 ''b'' False 4 0,
                  BitArrayRegion 4 4 4])
   \<and> \<not> is_DataRegionDocHighlight
         (last [BitArrayRegion 0 4 0, CommentRegion 4 0 ''b'' False 4 0, BitArrayRegion 4 4 4])
   \<and> prepare_regions example_types bit_comment_document DDM_NORMAL ICM_FULL_INDENT =
       Some (Inr [BitArrayRegion 0 4 0, CommentRegion 4 0 ''b'' False 4 0,
                  BitArrayRegion 4 4 4, DataRegionDocHighlight 8 0 8])
   \<and> compute_regions example_types (plain_document 2) 0 0
         (BitOffset (buffer_length (plain_document 2)) 0) ICM_FULL_INDENT =
       Some (Inr [DataRegionDocHighlight 0 16 0])
   \<and> is_DataRegionDocHighlight (last [DataRegionDocHighlight 0 16 0])
   \<and> prepare_regions example_types (plain_document 2) DDM_NORMAL ICM_FULL_INDENT =
       Some (Inr [DataRegionDocHighlight 0 16 0])
   \<and> virt_to_real_segs typed_document \<noteq> []
   \<and> compute_regions example_types typed_document 0 0 16 ICM_FULL_INDENT =
       Some (Inr [TypeRegion ''u16'' 0 16 0])
   \<and> prepare_regions example_types typed_document DDM_VIRTUAL ICM_FULL_INDENT =
       Some (Inr [TypeRegion ''u16'' 0 16 0])"
proof -
  have c1: "compute_regions example_types typed_document 0 0
       (BitOffset (buffer_length typed_document) 0) ICM_FULL_INDENT =
     Some (Inr [TypeRegion ''u16'' 0 16 0])"
    by code_simp
  have c2: "compute_regions example_types bit_comment_document 0 0
         (BitOffset (buffer_length bit_comment_document) 0) ICM_FULL_INDENT =
       Some (Inr [BitArrayRegion 0 4 0, CommentRegion 4 0 ''b'' False 4 0,
                  BitArrayRegion 4 4 4])"
    by code_simp
  have c3: "compute_regions example_types (plain_document 2) 0 0
         (BitOffset (buffer_length (plain_document 2)) 0) ICM_FULL_INDENT =
       Some (Inr [DataRegionDocHighlight 0 16 0])"
    by code_simp
  have c4: "compute_regions example_types typed_document 0 0 16 ICM_FULL_INDENT =
       Some (Inr [TypeRegion ''u16'' 0 16 0])"
    by code_simp
  have l1: "BitOffset (buffer_length typed_document) 0 = 16"
    by (simp add: typed_document_def BitOffset_def)
  have l2: "BitOffset (buffer_length bit_comment_document) 0 = 8"
    by (simp add: bit_comment_document_def plain_document_def BitOffset_def)
  have segs: "virt_to_real_segs typed_document = [((0, 2), 0)]"
    by (simp add: typed_document_def)
  from c1 anchor_unless_final_plain_data
      [where get_type = example_types and d = typed_document and icm = ICM_FULL_INDENT
         and rs = "[TypeRegion ''u16'' 0 16 0]" and pre = "[]"
         and f = "\<lambda>i. [TypeRegion ''u16'' 0 16 0]"]
  have 1: "prepare_regions example_types typed_document DDM_NORMAL ICM_FULL_INDENT =
       Some (Inr [TypeRegion ''u16'' 0 16 0, DataRegionDocHighlight 16 0 16])"
    by (simp add: l1)
  from c2 anchor_unless_final_plain_data
      [where get_type = example_types and d = bit_comment_document and icm = ICM_FULL_INDENT
         and rs = "[BitArrayRegion 0 4 0, CommentRegion 4 0 ''b'' False 4 0,
                    BitArrayRegion 4 4 4]" and pre = "[]"
         and f = "\<lambda>i. []"]
  have 2: "prepare_regions example_types bit_comment_document DDM_NORMAL ICM_FULL_INDENT =
       Some (Inr [BitArrayRegion 0 4 0, CommentRegion 4 0 ''b'' False 4 0,
                  BitArrayRegion 4 4 4, DataRegionDocHighlight 8 0 8])"
    by (simp add: l2)
  from c3 anchor_unless_final_plain_data
      [where get_type = example_types and d = "plain_document 2" and icm = ICM_FULL_INDENT
         and rs = "[DataRegionDocHighlight 0 16 0]" and pre = "[]"
         and f = "\<lambda>i. []"]
  have 3: "prepare_regions example_types (plain_document 2) DDM_NORMAL ICM_FULL_INDENT =
       Some (Inr [DataRegionDocHighlight 0 16 0])"
    by simp
  from c4 anchor_unless_final_plain_data
      [where get_type = example_types and d = typed_document and icm = ICM_FULL_INDENT
         and rs = "[TypeRegion ''u16'' 0 16 0]" and pre = "[]"
         and f = "\<lambda>i. [TypeRegion ''u16'' 0 16 0]"]
  have 4: "prepare_regions example_types typed_document DDM_VIRTUAL ICM_FULL_INDENT =
       Some (Inr [TypeRegion ''u16'' 0 16 0])"
    by (simp add: segs BitOffset_def range_offset_def range_length_def)
  from c1 c2 c3 c4 segs 1 2 3 4 show ?thesis
    by simp
qed

subsection \<open>The virtual view without segments\<close>

text \<open>
  C8. In the virtual display mode with an empty segment map, the regions are those of the
  file view (the regions of the whole file from offset and virtual offset zero, finished as
  the file view finishes them) with one comment region put in front. That region has offset
  \<open>-1\<close>, length zero and no indent, so it is not a data region and covers no byte. When the
  file view fails or does not end, so does the virtual one.
\<close>

theorem empty_segment_map_falls_back:
  "virt_to_real_segs d = [] \<Longrightarrow>
     prepare_regions get_type d DDM_VIRTUAL icm =
       (case prepare_regions get_type d DDM_NORMAL icm of
          None \<Rightarrow> None
        | Some (Inl e) \<Rightarrow> Some (Inl e)
        | Some (Inr rs) \<Rightarrow>
            Some (Inr (CommentRegion (BitOffset (- 1) 0) 0 C_TEXT False (BitOffset (- 1) 0) 0 # rs)))
     \<and> prepare_regions get_type d DDM_NORMAL icm =
         (case compute_regions get_type d 0 0 (BitOffset (buffer_length d) 0) icm of
            None \<Rightarrow> None
          | Some (Inl e) \<Rightarrow> Some (Inl e)
          | Some (Inr file_regions) \<Rightarrow>
              (case finish_file_regions d file_regions of
                 Inl e \<Rightarrow> Some (Inl e)
               | Inr rs \<Rightarrow> Some (Inr rs)))
     \<and> data_regions (CommentRegion (BitOffset (- 1) 0) 0 C_TEXT False (BitOffset (- 1) 0) 0 # rs)
         = data_regions rs"
  by (simp add: prepare_regions_def file_view_def data_regions_def
           split: option.splits sum.splits)

theorem empty_segment_map_falls_back_witness:
  "virt_to_real_segs (plain_document 2) = []
   \<and> prepare_regions example_types (plain_document 2) DDM_NORMAL ICM_FULL_INDENT =
       Some (Inr [DataRegionDocHighlight 0 16 0])
   \<and> prepare_regions example_types (plain_document 2) DDM_VIRTUAL ICM_FULL_INDENT =
       Some (Inr [CommentRegion (- 8) 0 C_TEXT False (- 8) 0, DataRegionDocHighlight 0 16 0])"
proof -
  have c: "prepare_regions example_types (plain_document 2) DDM_NORMAL ICM_FULL_INDENT =
      Some (Inr [DataRegionDocHighlight 0 16 0])"
    by code_simp
  show ?thesis
    using c empty_segment_map_falls_back
      [of "plain_document 2" example_types ICM_FULL_INDENT "[]"]
    by (simp add: plain_document_def BitOffset_def)
qed

subsection \<open>Freezing and thawing\<close>

lemma requests_frozen:
  "repopulate_regions_frozen tab \<Longrightarrow>
     requests get_type ds tab =
       Some (Inr (tab\<lparr>doc := last (doc tab # ds),
                      repopulate_regions_pending := repopulate_regions_pending tab \<or> ds \<noteq> []\<rparr>))"
  by (induction ds arbitrary: tab) (simp_all add: repopulate_regions_def)

lemma pending_only_while_frozen:
  assumes "repopulate_regions_pending tab \<longrightarrow> repopulate_regions_frozen tab"
  shows "repopulate_regions_pending (repopulate_regions_freeze tab)
           \<longrightarrow> repopulate_regions_frozen (repopulate_regions_freeze tab)"
    and "repopulate_regions get_type tab = Some (Inr tab') \<Longrightarrow>
           repopulate_regions_pending tab' \<longrightarrow> repopulate_regions_frozen tab'"
    and "repopulate_regions_thaw get_type tab = Some (Inr tab') \<Longrightarrow>
           \<not> repopulate_regions_pending tab' \<and> \<not> repopulate_regions_frozen tab'"
  using assms
  by (auto simp: repopulate_regions_freeze_def repopulate_regions_def
        repopulate_regions_thaw_def Let_def split: if_splits option.splits sum.splits)

text \<open>
  C10. While the tab is frozen, a request only sets the pending flag: no regions are prepared
  and the document control receives none, however many requests arrive. The thaw of a tab
  that was frozen with no request pending makes no call of \<open>replace_all_regions\<close> when no
  request came, and exactly one when at least one came, with the regions of the document as
  it is at the thaw; it clears both flags.
\<close>

theorem frozen_requests_coalesce:
  "\<not> repopulate_regions_pending tab \<Longrightarrow>
     requests get_type ds (repopulate_regions_freeze tab) =
       Some (Inr (tab\<lparr>doc := last (doc tab # ds), repopulate_regions_frozen := True,
                      repopulate_regions_pending := ds \<noteq> []\<rparr>))
     \<and> repopulate_regions_thaw get_type
         (tab\<lparr>doc := last (doc tab # ds), repopulate_regions_frozen := True,
              repopulate_regions_pending := ds \<noteq> []\<rparr>) =
         (if ds = [] then Some (Inr (tab\<lparr>repopulate_regions_frozen := False\<rparr>))
          else
            (case prepare_regions get_type (last ds) (document_display_mode tab)
                    (inline_comment_mode tab) of
               None \<Rightarrow> None
             | Some (Inl e) \<Rightarrow> Some (Inl e)
             | Some (Inr rs) \<Rightarrow>
                 Some (Inr (tab\<lparr>doc := last ds, repopulate_regions_frozen := False,
                                repopulate_regions_pending := False,
                                doc_ctrl := doc_ctrl tab @ [rs]\<rparr>))))"
  by (simp add: requests_frozen repopulate_regions_freeze_def repopulate_regions_thaw_def
        repopulate_regions_def split: option.splits sum.splits)

theorem frozen_requests_coalesce_witness:
  "\<not> repopulate_regions_pending (new_tab (plain_document 2))
   \<and> requests example_types [plain_document 1, plain_document 3]
        (repopulate_regions_freeze (new_tab (plain_document 2))) =
       Some (Inr ((new_tab (plain_document 3))
                    \<lparr>repopulate_regions_frozen := True, repopulate_regions_pending := True\<rparr>))
   \<and> repopulate_regions_thaw example_types
        ((new_tab (plain_document 3))
           \<lparr>repopulate_regions_frozen := True, repopulate_regions_pending := True\<rparr>) =
       Some (Inr ((new_tab (plain_document 3))\<lparr>doc_ctrl := [[DataRegionDocHighlight 0 24 0]]\<rparr>))
   \<and> requests example_types [] (repopulate_regions_freeze (new_tab (plain_document 2))) =
       Some (Inr ((new_tab (plain_document 2))\<lparr>repopulate_regions_frozen := True\<rparr>))
   \<and> repopulate_regions_thaw example_types
        ((new_tab (plain_document 2))\<lparr>repopulate_regions_frozen := True\<rparr>) =
       Some (Inr (new_tab (plain_document 2)))"
proof -
  have c: "prepare_regions example_types (plain_document 3) DDM_NORMAL ICM_FULL_INDENT =
      Some (Inr [DataRegionDocHighlight 0 24 0])"
    by code_simp
  show ?thesis
    using c
      frozen_requests_coalesce
        [of "new_tab (plain_document 2)" example_types "[plain_document 1, plain_document 3]"]
      frozen_requests_coalesce [of "new_tab (plain_document 2)" example_types "[]"]
    by (simp add: new_tab_def)
qed

subsection \<open>Well-formed comments in the order of the walk\<close>

lemma nested_ok_append:
  "nested_ok (xs @ ys) \<longleftrightarrow>
     nested_ok xs \<and> nested_ok ys
     \<and> (\<forall>x \<in> set xs. \<forall>y \<in> set ys. key_offset x \<le> key_offset y
           \<and> (key_offset y < key_offset x + key_length x
                \<longrightarrow> key_offset y + key_length y \<le> key_offset x + key_length x))"
  by (induction xs) auto

lemma siblings_ordered_Cons:
  "siblings_ordered (n # ns) \<Longrightarrow> \<forall>m \<in> set ns. 0 \<le> key_length m \<Longrightarrow>
     siblings_ordered ns \<and> (\<forall>m \<in> set ns. key_offset n + key_length n \<le> key_offset m)"
proof (induction ns arbitrary: n)
  case Nil
  then show ?case by simp
next
  case (Cons a ns)
  from Cons.prems have a: "key_offset n + key_length n \<le> key_offset a"
    and rest: "siblings_ordered (a # ns)" and len: "0 \<le> key_length a"
    by simp_all
  from Cons.IH [OF rest] Cons.prems(2)
  have "\<forall>m \<in> set ns. key_offset a + key_length a \<le> key_offset m" by simp
  with a len rest show ?case by fastforce
qed

lemma wf_comment_length: "wf_comment n \<Longrightarrow> 0 \<le> key_length n"
  by (cases n) simp

lemma preorder_list_ok:
  assumes "\<And>c. c \<in> set ns \<Longrightarrow> subtree_ok c"
    and "siblings_ordered ns"
  shows "nested_ok (preorder_list ns)
    \<and> (\<forall>x \<in> set (preorder_list ns). \<exists>c \<in> set ns. key_offset c \<le> key_offset x
          \<and> 0 \<le> key_length x
          \<and> key_offset x + key_length x \<le> key_offset c + key_length c)"
  using assms
proof (induction ns)
  case Nil
  then show ?case by (simp add: preorder_list_def)
next
  case (Cons n ns)
  have lens: "\<forall>m \<in> set ns. 0 \<le> key_length m"
  proof
    fix m assume "m \<in> set ns"
    then have "subtree_ok m" using Cons.prems(1) by simp
    moreover have "m \<in> set (preorder m)" by (simp add: preorder_eq_Cons)
    ultimately show "0 \<le> key_length m" unfolding subtree_ok_def by blast
  qed
  from siblings_ordered_Cons [OF Cons.prems(2) lens]
  have sib: "siblings_ordered ns"
    and after: "\<forall>m \<in> set ns. key_offset n + key_length n \<le> key_offset m"
    by simp_all
  from Cons.IH [OF _ sib] Cons.prems(1)
  have IH: "nested_ok (preorder_list ns)"
    "\<forall>x \<in> set (preorder_list ns). \<exists>c \<in> set ns. key_offset c \<le> key_offset x
          \<and> 0 \<le> key_length x
          \<and> key_offset x + key_length x \<le> key_offset c + key_length c"
    by simp_all
  from Cons.prems(1) [of n] have n: "nested_ok (preorder n)"
    "\<forall>x \<in> set (preorder n). key_offset n \<le> key_offset x \<and> 0 \<le> key_length x
            \<and> key_offset x + key_length x \<le> key_offset n + key_length n"
    by (simp_all add: subtree_ok_def)
  have cross: "\<forall>x \<in> set (preorder n). \<forall>y \<in> set (preorder_list ns).
      key_offset x + key_length x \<le> key_offset y"
  proof (intro ballI)
    fix x y
    assume x: "x \<in> set (preorder n)" and y: "y \<in> set (preorder_list ns)"
    from IH(2) y obtain c where c: "c \<in> set ns" "key_offset c \<le> key_offset y" by blast
    from after c(1) have "key_offset n + key_length n \<le> key_offset c" by simp
    with n(2) x c(2) show "key_offset x + key_length x \<le> key_offset y" by fastforce
  qed
  have split: "preorder_list (n # ns) = preorder n @ preorder_list ns"
    by (simp add: preorder_list_def)
  have "nested_ok (preorder_list (n # ns))"
    unfolding split nested_ok_append
  proof (intro conjI ballI)
    fix x y
    assume x: "x \<in> set (preorder n)" and y: "y \<in> set (preorder_list ns)"
    with cross have le: "key_offset x + key_length x \<le> key_offset y" by blast
    from n(2) x have "0 \<le> key_length x" by blast
    with le show "key_offset x \<le> key_offset y" by simp
    from le show "key_offset y < key_offset x + key_length x \<longrightarrow>
        key_offset y + key_length y \<le> key_offset x + key_length x"
      by simp
  qed (simp_all add: n(1) IH(1))
  moreover have "\<forall>x \<in> set (preorder_list (n # ns)). \<exists>c \<in> set (n # ns).
      key_offset c \<le> key_offset x \<and> 0 \<le> key_length x
      \<and> key_offset x + key_length x \<le> key_offset c + key_length c"
    unfolding split using n(2) IH(2) by auto
  ultimately show ?case by simp
qed

lemma wf_comment_subtree_ok: "wf_comment n \<Longrightarrow> subtree_ok n"
proof (induction n rule: cnode.induct)
  case (CNode off len body cs)
  from CNode.prems have wf: "0 \<le> len" "siblings_ordered cs"
    "\<forall>c \<in> set cs. off \<le> key_offset c \<and> key_offset c + key_length c \<le> off + len
        \<and> wf_comment c"
    by simp_all
  have "nested_ok (preorder_list cs)
    \<and> (\<forall>x \<in> set (preorder_list cs). \<exists>c \<in> set cs. key_offset c \<le> key_offset x
          \<and> 0 \<le> key_length x
          \<and> key_offset x + key_length x \<le> key_offset c + key_length c)"
    using CNode.IH wf(2,3) by (intro preorder_list_ok) simp_all
  then have kids: "nested_ok (preorder_list cs)"
    and inside: "\<forall>x \<in> set (preorder_list cs). off \<le> key_offset x \<and> 0 \<le> key_length x
          \<and> key_offset x + key_length x \<le> off + len"
    using wf(3) by (simp, fastforce)
  show ?case
    unfolding subtree_ok_def preorder_eq_Cons using wf(1) kids inside by simp
qed

lemma wf_comments_nested_ok: "wf_comments roots \<Longrightarrow> nested_ok (preorder_list roots)"
  using preorder_list_ok [of roots] by (simp add: wf_comments_def wf_comment_subtree_ok)

subsection \<open>The comments ahead of a pointer\<close>

lemma ahead_eq_Nil [simp]: "ahead p = [] \<longleftrightarrow> p = []"
  by (simp add: ahead_def preorder_eq_Cons)

lemma hd_ahead: "p \<noteq> [] \<Longrightarrow> hd (ahead p) = deref p"
  by (simp add: ahead_eq_Cons)

lemma ahead_deref_tl: "p \<noteq> [] \<Longrightarrow> ahead p = deref p # tl (ahead p)"
  by (simp add: ahead_eq_Cons)

lemma skip_comments_suffix: "\<exists>skipped. ahead nc = skipped @ ahead (skip_comments nc nd)"
proof (induction nc nd rule: skip_comments.induct)
  case (1 nc nd)
  show ?case
  proof (cases "nc \<noteq> [] \<and> key_offset (deref nc) < nd")
    case False
    then have "skip_comments nc nd = nc"
      by (subst skip_comments.simps) auto
    then show ?thesis by simp
  next
    case True
    show ?thesis
    proof (cases "get_first_child nc \<noteq> []
        \<and> (key_offset (deref (get_first_child nc)) = key_offset (deref nc)
            \<or> nd \<le> key_offset (deref (get_first_child nc)))")
      case child: True
      with True have eq: "skip_comments nc nd = skip_comments (get_first_child nc) nd"
        by (subst skip_comments.simps) (simp add: Let_def)
      from "1.IH"(1) [OF True refl] child obtain sk where
        "ahead (get_first_child nc) = sk @ ahead (skip_comments (get_first_child nc) nd)"
        by auto
      moreover from True child have "ahead nc = deref nc # ahead (get_first_child nc)"
        using ahead_deref_tl [of nc] by (simp add: ahead_get_first_child)
      ultimately have "ahead nc = (deref nc # sk) @ ahead (skip_comments nc nd)"
        by (simp add: eq)
      then show ?thesis by blast
    next
      case sibling: False
      with True have eq: "skip_comments nc nd = skip_comments (climb_next nc) nd"
        by (subst skip_comments.simps) (auto simp: Let_def)
      from "1.IH"(2) [OF True refl] sibling obtain sk where
        "ahead (climb_next nc) = sk @ ahead (skip_comments (climb_next nc) nd)"
        by auto
      moreover from True have "ahead nc = preorder (deref nc) @ ahead (climb_next nc)"
        by (simp add: ahead_climb_next) (simp add: ahead_def)
      ultimately have "ahead nc = (preorder (deref nc) @ sk) @ ahead (skip_comments nc nd)"
        by (simp add: eq)
      then show ?thesis by blast
    qed
  qed
qed

lemma skip_comments_not_behind:
  "skip_comments nc nd \<noteq> [] \<Longrightarrow> nd \<le> key_offset (deref (skip_comments nc nd))"
proof (induction nc nd rule: skip_comments.induct)
  case (1 nc nd)
  show ?case
  proof (cases "nc \<noteq> [] \<and> key_offset (deref nc) < nd")
    case False
    then have "skip_comments nc nd = nc"
      by (subst skip_comments.simps) auto
    with False "1.prems" show ?thesis by auto
  next
    case True
    show ?thesis
    proof (cases "get_first_child nc \<noteq> []
        \<and> (key_offset (deref (get_first_child nc)) = key_offset (deref nc)
            \<or> nd \<le> key_offset (deref (get_first_child nc)))")
      case child: True
      with True have eq: "skip_comments nc nd = skip_comments (get_first_child nc) nd"
        by (subst skip_comments.simps) (simp add: Let_def)
      from "1.IH"(1) [OF True refl] child "1.prems" show ?thesis
        by (simp add: eq)
    next
      case sibling: False
      with True have eq: "skip_comments nc nd = skip_comments (climb_next nc) nd"
        by (subst skip_comments.simps) (auto simp: Let_def)
      from "1.IH"(2) [OF True refl] sibling "1.prems" show ?thesis
        by (simp add: eq)
    qed
  qed
qed

subsection \<open>The type range at a position\<close>

lemma types_at_dropWhile:
  "partition_of ts lo hi \<Longrightarrow> lo \<le> pos \<Longrightarrow> pos < hi \<Longrightarrow>
     types_at (dropWhile (\<lambda>t. range_offset t + range_length t \<le> pos) ts) pos hi"
  by (induction ts arbitrary: lo) (auto simp: types_at_def)

lemma types_at_tl:
  "types_at ts pos hi \<Longrightarrow> range_offset (hd ts) + range_length (hd ts) < hi \<Longrightarrow>
     types_at (tl ts) (range_offset (hd ts) + range_length (hd ts)) hi"
  by (cases ts; cases "tl ts") (auto simp: types_at_def)

lemma types_at_later:
  "types_at ts pos hi \<Longrightarrow> pos \<le> pos' \<Longrightarrow> pos' < range_offset (hd ts) + range_length (hd ts)
     \<Longrightarrow> types_at ts pos' hi"
  by (cases ts) (auto simp: types_at_def)

subsection \<open>Regions that follow one another\<close>

lemma contiguous_append:
  "contiguous a rs b \<Longrightarrow> region_offset r = b \<Longrightarrow> 0 < d_length r \<Longrightarrow>
     contiguous a (rs @ [r]) (b + d_length r)"
  by (induction rs arbitrary: a) auto

lemma contiguous_sum_list: "contiguous a rs b \<Longrightarrow> sum_list (map d_length rs) = b - a"
  by (induction rs arbitrary: a) auto

lemma data_regions_append [simp]:
  "data_regions (rs @ rs') = data_regions rs @ data_regions rs'"
  by (simp add: data_regions_def)

subsection \<open>What holds at every turn of the main loop\<close>

lemma comments_inv_pop:
  "comments_inv s \<Longrightarrow>
     comments_inv (s\<lparr>dr_limit := dropWhile (\<lambda>top. top \<le> next_data s) (dr_limit s)\<rparr>)
     \<and> limit_ahead (s\<lparr>dr_limit := dropWhile (\<lambda>top. top \<le> next_data s) (dr_limit s)\<rparr>)"
proof -
  have "dropWhile (\<lambda>top. top \<le> next_data s) (dr_limit s) = []
      \<or> next_data s < hd (dropWhile (\<lambda>top. top \<le> next_data s) (dr_limit s))"
    using hd_dropWhile [of "\<lambda>top. top \<le> next_data s" "dr_limit s"]
    by (cases "dropWhile (\<lambda>top. top \<le> next_data s) (dr_limit s) = []") simp_all
  moreover assume "comments_inv s"
  ultimately show ?thesis
    by (auto simp: comments_inv_def limit_ahead_def dest: set_dropWhileD)
qed

lemma emit_comment_ok:
  assumes inv: "comments_inv s" and top: "limit_ahead s"
    and nc: "next_comment s \<noteq> []"
    and at: "key_offset (deref (next_comment s)) = next_data s"
  shows "\<exists>s'. emit_comment nest truncate' s = Inr s' \<and> comments_inv s' \<and> limit_ahead s'"
proof -
  let ?c = "deref (next_comment s)"
  let ?rest = "tl (ahead (next_comment s))"
  have ahead: "ahead (next_comment s) = ?c # ?rest"
    using nc by (rule ahead_deref_tl)
  from inv have ordered: "nested_ok (?c # ?rest)"
    and limits: "\<forall>e \<in> set (dr_limit s). \<forall>c \<in> set (?c # ?rest).
        key_offset c < e \<longrightarrow> key_offset c + key_length c \<le> e"
    unfolding comments_inv_def using ahead by simp_all
  have fits: "dr_limit s = [] \<or> key_offset ?c + key_length ?c \<le> hd (dr_limit s)"
  proof (cases "dr_limit s")
    case Nil
    then show ?thesis by simp
  next
    case (Cons e es)
    with top at have "key_offset ?c < e" by (simp add: limit_ahead_def)
    with limits Cons show ?thesis by simp
  qed
  let ?s' = "s
    \<lparr>regions := regions s @
       [CommentRegion (key_offset ?c) (key_length ?c) (value_text ?c) truncate' (next_virt s)
          (if nest then min (key_length ?c) (remain_data s) else 0)],
     dr_limit := (if nest \<and> key_length ?c > 0
                  then (key_offset ?c + key_length ?c) # dr_limit s
                  else dr_limit s),
     next_comment := advance_comment (next_comment s)\<rparr>"
  have run: "emit_comment nest truncate' s = Inr ?s'"
    using fits by (auto simp: emit_comment_def Let_def)
  have rest: "ahead (next_comment ?s') = ?rest"
    using nc by (simp add: ahead_advance_comment)
  have "nested_ok ?rest" using ordered by simp
  moreover have "next_comment ?s' \<noteq> [] \<longrightarrow> next_data ?s' \<le> key_offset (deref (next_comment ?s'))"
  proof
    assume ne: "next_comment ?s' \<noteq> []"
    then have "deref (next_comment ?s') = hd ?rest"
      using rest hd_ahead [OF ne] by simp
    moreover from ne rest have "?rest \<noteq> []"
      using ahead_eq_Nil [of "next_comment ?s'"] by simp
    ultimately have "deref (next_comment ?s') \<in> set ?rest" by simp
    with ordered at show "next_data ?s' \<le> key_offset (deref (next_comment ?s'))" by auto
  qed
  moreover have "\<forall>e \<in> set (dr_limit ?s'). \<forall>c \<in> set ?rest.
      key_offset c < e \<longrightarrow> key_offset c + key_length c \<le> e"
    using limits ordered by auto
  ultimately have "comments_inv ?s'"
    unfolding comments_inv_def rest by blast
  moreover have "limit_ahead ?s'"
    using top at by (auto simp: limit_ahead_def)
  ultimately show ?thesis using run by blast
qed

lemma emit_comments_ok:
  assumes "comments_inv s" and "limit_ahead s"
  shows "\<exists>s'. emit_comments nest truncate' s = Inr s' \<and> comments_inv s' \<and> limit_ahead s'
    \<and> (next_comment s' \<noteq> [] \<longrightarrow> next_data s' < key_offset (deref (next_comment s')))"
  using assms
proof (induction nest truncate' s rule: emit_comments.induct)
  case (1 nest truncate' s)
  show ?case
  proof (cases "next_comment s \<noteq> [] \<and> key_offset (deref (next_comment s)) = next_data s")
    case True
    with emit_comment_ok [OF "1.prems", of nest truncate'] obtain s1 where
      one: "emit_comment nest truncate' s = Inr s1"
      and inv: "comments_inv s1" "limit_ahead s1"
      by blast
    from "1.IH" [OF True one inv] obtain s' where
      "emit_comments nest truncate' s1 = Inr s'" "comments_inv s'" "limit_ahead s'"
      "next_comment s' \<noteq> [] \<longrightarrow> next_data s' < key_offset (deref (next_comment s'))"
      by blast
    moreover from True one have "emit_comments nest truncate' s = emit_comments nest truncate' s1"
      by (subst emit_comments.simps) simp
    ultimately show ?thesis by simp
  next
    case False
    then have "emit_comments nest truncate' s = Inr s"
      by (subst emit_comments.simps) auto
    moreover from False "1.prems"(1)
    have "next_comment s \<noteq> [] \<longrightarrow> next_data s < key_offset (deref (next_comment s))"
      by (auto simp: comments_inv_def)
    ultimately show ?thesis using "1.prems" by simp
  qed
qed

lemma emit_comments_data_regions:
  assumes "emit_comments nest truncate' s = Inr s'"
  shows "data_regions (regions s') = data_regions (regions s)"
proof -
  let ?P = "\<lambda>s1 :: cr_state. data_regions (regions s1) = data_regions (regions s)"
  have "?P s'
      \<and> \<not> (next_comment s' \<noteq> [] \<and> key_offset (deref (next_comment s')) = next_data s')"
    by (rule emit_comments_rule [OF assms, where P = ?P])
       (auto dest!: emit_comment_Inr simp: data_regions_def)
  then show ?thesis by simp
qed

subsection \<open>The data region of a turn\<close>

lemma sdiv_nonneg_pos:
  fixes a b :: int
  assumes "0 \<le> a" "0 < b"
  shows "a sdiv b = a div b"
  using assms by (simp add: signed_divide_int_def sgn_if)

lemma data_block_ok:
  assumes pos: "0 < dr_length"
    and ws: "\<And>t. dt = Some t \<Longrightarrow> region_factory t \<noteq> None \<Longrightarrow> 0 < word_size t"
  shows "data_block dt nd dr_length nv = Inl (AssertionFailed Length_Positive)
    \<or> (\<exists>r len. data_block dt nd dr_length nv = Inr (r, len) \<and> 0 < len \<and> len \<le> dr_length)"
proof (cases "dt \<noteq> None \<and> region_factory (the dt) \<noteq> None
    \<and> region_fixed_size (the dt) \<le> dr_length")
  case True
  then obtain t where t: "dt = Some t" "region_factory t \<noteq> None"
    "region_fixed_size t \<le> dr_length"
    by auto
  from ws [OF t(1,2)] have w: "0 < word_size t" .
  with pos have m: "dr_length smod word_size t = dr_length mod word_size t"
    by (simp add: smod_nonneg_pos)
  from w have "0 \<le> dr_length mod word_size t" by simp
  with t w m show ?thesis
    by (auto simp: data_block_def Let_def)
next
  case False
  show ?thesis
  proof (cases "dr_length < 8")
    case True
    with False pos show ?thesis
      by (auto simp: data_block_def Let_def BitOffset_def)
  next
    case long: False
    then have "byte dr_length = dr_length div 8"
      by (simp add: byte_def sdiv_nonneg_pos)
    moreover from long have "0 < dr_length div 8 * 8" "dr_length div 8 * 8 \<le> dr_length"
      by simp_all
    ultimately show ?thesis
      using False long pos by (auto simp: data_block_def Let_def BitOffset_def)
  qed
qed

lemma data_block_fits:
  assumes pos: "0 < dr_length"
    and ws: "\<And>t. dt = Some t \<Longrightarrow> region_factory t \<noteq> None \<Longrightarrow> 0 < word_size t"
    and fit: "\<And>t. dt = Some t \<Longrightarrow> region_factory t \<noteq> None \<Longrightarrow>
        word_size t = 1 \<or> (0 < region_fixed_size t \<and> word_size t \<le> region_fixed_size t)"
  shows "data_block dt nd dr_length nv \<noteq> Inl (AssertionFailed Length_Positive)"
proof (cases "dt \<noteq> None \<and> region_factory (the dt) \<noteq> None
    \<and> region_fixed_size (the dt) \<le> dr_length")
  case True
  then obtain t where t: "dt = Some t" "region_factory t \<noteq> None"
    "region_fixed_size t \<le> dr_length"
    by auto
  from ws [OF t(1,2)] have w: "0 < word_size t" .
  with pos have m: "dr_length smod word_size t = dr_length mod word_size t"
    by (simp add: smod_nonneg_pos)
  show ?thesis
  proof (cases "0 < region_fixed_size t \<and> region_fixed_size t < dr_length")
    case True
    with t show ?thesis by (simp add: data_block_def)
  next
    case False
    have "0 < dr_length - dr_length mod word_size t"
    proof (cases "word_size t = 1")
      case True
      with pos show ?thesis by simp
    next
      case other: False
      with fit [OF t(1,2)] False t(3) have "word_size t \<le> dr_length" by simp
      with w have "0 < dr_length div word_size t"
        by (simp add: pos_imp_zdiv_pos_iff)
      then have "1 \<le> dr_length div word_size t"
        by simp
      with w have "word_size t * 1 \<le> word_size t * (dr_length div word_size t)"
        by (intro mult_left_mono) simp_all
      with w show ?thesis by (simp add: minus_mod_eq_mult_div)
    qed
    with t w m False show ?thesis
      by (auto simp: data_block_def Let_def)
  qed
next
  case False
  then show ?thesis
    by (auto simp: data_block_def Let_def)
qed

subsection \<open>A turn of the main loop keeps the data regions in line\<close>

lemma types_iter_push_data_region:
  "types_iter (push_data_region st r len) =
     (if range_offset (hd (types_iter st)) + range_length (hd (types_iter st))
           \<le> next_data st + len
      then tl (types_iter st) else types_iter st)"
  by (simp add: push_data_region_def Let_def)

lemma loop_body_step:
  assumes inv: "cr_inv d real_base virt_base length' s" and pos: "0 < remain_data s"
  obtains st1 dr_length where
    "0 < dr_length"
    "types_iter st1 \<noteq> []" "hd (types_iter st1) \<in> set (data_types d)"
    "loop_body get_type d nest truncate' s =
       (case data_block
               (get_type (name (snd (hd (types_iter st1)))) (options (snd (hd (types_iter st1)))))
               (next_data st1) dr_length (next_virt st1) of
          Inl e \<Rightarrow> Inl e
        | Inr (r, len) \<Rightarrow> Inr (push_data_region st1 r len))"
    "\<And>dt r len. data_block dt (next_data st1) dr_length (next_virt st1) = Inr (r, len)
       \<Longrightarrow> 0 < len \<Longrightarrow> len \<le> dr_length
       \<Longrightarrow> cr_inv d real_base virt_base length' (push_data_region st1 r len)
           \<and> remain_data (push_data_region st1 r len) < remain_data s"
proof -
  let ?hi = "BitOffset (buffer_length d) 0"
  let ?s0 = "s\<lparr>dr_limit := dropWhile (\<lambda>top. top \<le> next_data s) (dr_limit s)\<rparr>"
  from inv pos have step: "in_step real_base virt_base length' s"
    and range: "real_base + length' \<le> ?hi"
    and chain: "contiguous real_base (data_regions (regions s)) (next_data s)"
    and sub: "set (types_iter s) \<subseteq> set (data_types d)"
    and ty: "types_at (types_iter s) (next_data s) ?hi"
    and com: "comments_inv s"
    by (simp_all add: cr_inv_def)
  from comments_inv_pop [OF com] have "comments_inv ?s0" "limit_ahead ?s0" by simp_all
  from emit_comments_ok [OF this, of nest truncate'] obtain st1 where
    emit: "emit_comments nest truncate' ?s0 = Inr st1"
    and com1: "comments_inv st1" and top1: "limit_ahead st1"
    and next1: "next_comment st1 \<noteq> [] \<longrightarrow> next_data st1 < key_offset (deref (next_comment st1))"
    by blast
  from emit_comments_fields [OF emit] have f: "next_data st1 = next_data s"
    "next_virt st1 = next_virt s" "remain_data st1 = remain_data s"
    "types_iter st1 = types_iter s"
    by simp_all
  from emit_comments_data_regions [OF emit]
  have dr: "data_regions (regions st1) = data_regions (regions s)" by simp
  let ?c1 = "clamp_to_comment st1 (remain_data st1)"
  let ?c2 = "clamp_to_limit st1 ?c1"
  let ?c3 = "clamp_to_type st1 ?c2"
  have c1: "0 < ?c1" "?c1 \<le> remain_data s"
    "next_comment st1 \<noteq> [] \<longrightarrow> next_data s + ?c1 \<le> key_offset (deref (next_comment st1))"
    using pos next1 f by (auto simp: clamp_to_comment_def)
  have lim: "limit_reached st1 ?c1 \<longrightarrow> next_data st1 < hd (dr_limit st1)"
    using top1 by (auto simp: limit_reached_def limit_ahead_def)
  have c2: "0 < ?c2" "?c2 \<le> ?c1"
    using c1(1) lim by (auto simp: clamp_to_limit_def limit_reached_def)
  from ty obtain t ts where ts: "types_iter s = t # ts"
    and cover: "range_offset t \<le> next_data s" "next_data s < range_offset t + range_length t"
    by (auto simp: types_at_def split: list.splits)
  have c3: "0 < ?c3" "?c3 \<le> ?c2" "next_data s + ?c3 \<le> range_offset t + range_length t"
    using c2(1) cover f ts by (auto simp: clamp_to_type_def)
  have a1: "next_data s + remain_data s \<le> ?hi"
    using step range by (simp add: in_step_def)
  have a2: "next_comment s = [] \<or> next_data s \<le> key_offset (deref (next_comment s))"
    using com by (auto simp: comments_inv_def)
  have a3: "(limit_reached st1 ?c1 \<and> \<not> next_data st1 < hd (dr_limit st1)) = False"
    using lim by simp
  have a4: "types_iter st1 \<noteq> []"
    "range_offset (hd (types_iter st1)) \<le> next_data st1
       \<and> next_data st1 < range_offset (hd (types_iter st1)) + range_length (hd (types_iter st1))"
    using f ts cover by simp_all
  have body: "loop_body get_type d nest truncate' s =
       (case data_block
               (get_type (name (snd (hd (types_iter st1)))) (options (snd (hd (types_iter st1)))))
               (next_data st1) ?c3 (next_virt st1) of
          Inl e \<Rightarrow> Inl e
        | Inr (r, len) \<Rightarrow> Inr (push_data_region st1 r len))"
    unfolding loop_body_def Let_def using a1 a2 a4 emit by (simp add: a3)
  have member: "hd (types_iter st1) \<in> set (data_types d)"
    using sub f ts by simp
  have after: "cr_inv d real_base virt_base length' (push_data_region st1 r len)
           \<and> remain_data (push_data_region st1 r len) < remain_data s"
    if block: "data_block dt (next_data st1) ?c3 (next_virt st1) = Inr (r, len)"
      and len: "0 < len" "len \<le> ?c3"
    for dt r len
  proof -
    let ?s' = "push_data_region st1 r len"
    from c1(2) c2(2) c3(2) len(2) have len_rem: "len \<le> remain_data s" by simp
    have i1: "in_step real_base virt_base length' ?s'"
      using step f by (intro in_step_push_data_region) (simp add: in_step_def)
    have i2: "0 \<le> remain_data ?s'" "remain_data ?s' < remain_data s"
      using len(1) len_rem f by (simp_all add: push_data_region_fields)
    have "contiguous real_base (data_regions (regions s) @ [r]) (next_data s + d_length r)"
      using chain data_block_Inr(2,4) [OF block] len(1) f
      by (intro contiguous_append) simp_all
    then have i3: "contiguous real_base (data_regions (regions ?s')) (next_data ?s')"
      using data_block_Inr(1,4) [OF block] dr f
      by (simp add: push_data_region_fields) (simp add: data_regions_def)
    have i4: "set (types_iter ?s') \<subseteq> set (data_types d)"
      using sub f ts by (auto simp: types_iter_push_data_region)
    have i5: "types_at (types_iter ?s') (next_data ?s') ?hi" if more: "0 < remain_data ?s'"
    proof (cases "range_offset t + range_length t \<le> next_data s + len")
      case True
      with c3(3) len(2) have at_end: "next_data s + len = range_offset t + range_length t"
        by simp
      from i1 range more have "next_data ?s' < ?hi"
        by (simp add: in_step_def)
      with at_end f have "range_offset t + range_length t < ?hi"
        by (simp add: push_data_region_fields)
      with types_at_tl [OF ty] ts have "types_at ts (range_offset t + range_length t) ?hi"
        by simp
      with True at_end f ts show ?thesis
        by (simp add: types_iter_push_data_region push_data_region_fields)
    next
      case False
      with types_at_later [OF ty, of "next_data s + len"] len(1) ts f show ?thesis
        by (simp add: types_iter_push_data_region push_data_region_fields)
    qed
    have i6: "comments_inv ?s'"
      using com1 c1(3) c2(2) c3(2) len f
      by (auto simp: comments_inv_def push_data_region_fields)
    from i1 i2 i3 i4 i5 i6 range show ?thesis
      by (simp add: cr_inv_def)
  qed
  show ?thesis
  proof (rule that [OF c3(1) a4(1) member body])
    fix dt r len
    assume "data_block dt (next_data st1) ?c3 (next_virt st1) = Inr (r, len)"
      "0 < len" "len \<le> ?c3"
    then show "cr_inv d real_base virt_base length' (push_data_region st1 r len)
        \<and> remain_data (push_data_region st1 r len) < remain_data s"
      by (rule after)
  qed
qed

lemma registry_word_size:
  assumes "word_sizes_positive get_type d" and "t \<in> set (data_types d)"
    and "get_type (name (snd t)) (options (snd t)) = Some dt" and "region_factory dt \<noteq> None"
  shows "0 < word_size dt"
  using assms unfolding word_sizes_positive_def by fastforce

lemma registry_words_fit:
  assumes "words_fit get_type d" and "t \<in> set (data_types d)"
    and "get_type (name (snd t)) (options (snd t)) = Some dt" and "region_factory dt \<noteq> None"
  shows "word_size dt = 1 \<or> (0 < region_fixed_size dt \<and> word_size dt \<le> region_fixed_size dt)"
  using assms unfolding words_fit_def by fastforce

lemma main_loop_ok:
  assumes "cr_inv d real_base virt_base length' s"
    and ws: "word_sizes_positive get_type d"
  shows "(\<exists>s'. main_loop get_type d nest truncate' s = Some (Inr (regions s'))
            \<and> cr_inv d real_base virt_base length' s' \<and> remain_data s' = 0)
    \<or> (\<not> words_fit get_type d
        \<and> main_loop get_type d nest truncate' s = Some (Inl (AssertionFailed Length_Positive)))"
  using assms(1)
proof (induction "nat (remain_data s)" arbitrary: s rule: less_induct)
  case less
  note inv = less.prems
  show ?case
  proof (cases "0 < remain_data s")
    case False
    with inv have "remain_data s = 0" by (simp add: cr_inv_def)
    moreover from False have "main_loop get_type d nest truncate' s = Some (Inr (regions s))"
      by (subst main_loop.simps) simp
    ultimately show ?thesis using inv by blast
  next
    case True
    from inv True obtain st1 dr_length where
      pos: "0 < dr_length"
      and "types_iter st1 \<noteq> []"
      and member: "hd (types_iter st1) \<in> set (data_types d)"
      and body: "loop_body get_type d nest truncate' s =
       (case data_block
               (get_type (name (snd (hd (types_iter st1)))) (options (snd (hd (types_iter st1)))))
               (next_data st1) dr_length (next_virt st1) of
          Inl e \<Rightarrow> Inl e
        | Inr (r, len) \<Rightarrow> Inr (push_data_region st1 r len))"
      and after: "\<And>dt r len.
          data_block dt (next_data st1) dr_length (next_virt st1) = Inr (r, len)
          \<Longrightarrow> 0 < len \<Longrightarrow> len \<le> dr_length
          \<Longrightarrow> cr_inv d real_base virt_base length' (push_data_region st1 r len)
              \<and> remain_data (push_data_region st1 r len) < remain_data s"
      by (rule loop_body_step [where get_type = get_type and nest = nest
            and truncate' = truncate']) (rule that)
    let ?dt = "get_type (name (snd (hd (types_iter st1)))) (options (snd (hd (types_iter st1))))"
    have w: "0 < word_size t" if "?dt = Some t" "region_factory t \<noteq> None" for t
      using registry_word_size [OF ws member that] .
    have "data_block ?dt (next_data st1) dr_length (next_virt st1) =
          Inl (AssertionFailed Length_Positive)
      \<or> (\<exists>r len. data_block ?dt (next_data st1) dr_length (next_virt st1) = Inr (r, len)
            \<and> 0 < len \<and> len \<le> dr_length)"
      by (rule data_block_ok [OF pos]) (rule w)
    then show ?thesis
    proof (elim disjE exE conjE)
      assume failed: "data_block ?dt (next_data st1) dr_length (next_virt st1) =
          Inl (AssertionFailed Length_Positive)"
      with body True have "main_loop get_type d nest truncate' s =
          Some (Inl (AssertionFailed Length_Positive))"
        by (subst main_loop.simps) simp
      moreover have "\<not> words_fit get_type d"
      proof
        assume fit: "words_fit get_type d"
        have "data_block ?dt (next_data st1) dr_length (next_virt st1) \<noteq>
            Inl (AssertionFailed Length_Positive)"
        proof (rule data_block_fits [OF pos])
          fix t
          assume t: "?dt = Some t" "region_factory t \<noteq> None"
          then show "0 < word_size t" by (rule w)
          from t show "word_size t = 1
              \<or> (0 < region_fixed_size t \<and> word_size t \<le> region_fixed_size t)"
            by (rule registry_words_fit [OF fit member])
        qed
        with failed show False by simp
      qed
      ultimately show ?thesis by blast
    next
      fix r len
      assume block: "data_block ?dt (next_data st1) dr_length (next_virt st1) = Inr (r, len)"
        and len: "0 < len" "len \<le> dr_length"
      let ?s1 = "push_data_region st1 r len"
      from after [OF block len] have inv1: "cr_inv d real_base virt_base length' ?s1"
        and less: "remain_data ?s1 < remain_data s"
        by simp_all
      from less True have "nat (remain_data ?s1) < nat (remain_data s)" by simp
      from less.hyps [OF this inv1]
      have "(\<exists>s'. main_loop get_type d nest truncate' ?s1 = Some (Inr (regions s'))
            \<and> cr_inv d real_base virt_base length' s' \<and> remain_data s' = 0)
        \<or> (\<not> words_fit get_type d
            \<and> main_loop get_type d nest truncate' ?s1 =
                Some (Inl (AssertionFailed Length_Positive)))" .
      moreover from body block True
      have "main_loop get_type d nest truncate' s = main_loop get_type d nest truncate' ?s1"
        by (subst main_loop.simps) simp
      ultimately show ?thesis by simp
    qed
  qed
qed

lemma ahead_first_root_node: "ahead (first_root_node roots) = preorder_list roots"
  by (cases roots) (simp_all add: first_root_node_def ahead_def deref_def preorder_list_def)

subsection \<open>The data regions cover the range\<close>

text \<open>
  For well-formed comments and types, word sizes that are positive, and a range
  \<open>[real_base, real_base + length')\<close> inside the buffer, \<open>compute_regions\<close> ends. Either it
  returns regions whose data regions, in order, start at \<open>real_base\<close>, each of positive
  length and each ending where the next starts, the last ending at \<open>real_base + length'\<close>, so
  that their lengths add up to \<open>length'\<close>; or it stops at the assertion that the length of a
  region built by a type's factory is positive, which needs a type with a factory whose
  word size is more than one bit and whose fixed size is zero or less than a word.
\<close>

lemma compute_regions_covers_or_stops:
  assumes "wf_comments (comments d)" and "wf_types d"
    and "word_sizes_positive get_type d"
    and "0 \<le> real_base" and "0 \<le> length'"
    and "real_base + length' \<le> BitOffset (buffer_length d) 0"
  shows "(\<exists>rs. compute_regions get_type d real_base virt_base length' icm = Some (Inr rs)
            \<and> contiguous real_base (data_regions rs) (real_base + length')
            \<and> sum_list (map d_length (data_regions rs)) = length')
    \<or> (\<not> words_fit get_type d
        \<and> compute_regions get_type d real_base virt_base length' icm =
            Some (Inl (AssertionFailed Length_Positive)))"
proof -
  let ?hi = "BitOffset (buffer_length d) 0"
  let ?nest = "icm = ICM_SHORT_INDENT \<or> icm = ICM_FULL_INDENT"
  let ?tr = "icm = ICM_SHORT \<or> icm = ICM_SHORT_INDENT"
  let ?skipped = "skip_comments (first_root_node (comments d)) real_base"
  let ?nc = "if icm = ICM_HIDDEN then [] else ?skipped"
  let ?ti = "dropWhile (\<lambda>t. range_offset t + range_length t \<le> real_base) (data_types d)"
  let ?s = "\<lparr>next_comment = ?nc, types_iter = ?ti, next_data = real_base,
      next_virt = virt_base, remain_data = length', regions = [], dr_limit = []\<rparr>"
  have run: "compute_regions get_type d real_base virt_base length' icm =
      main_loop get_type d ?nest ?tr ?s"
    by (simp add: compute_regions_def Let_def)
  obtain skipped where "preorder_list (comments d) = skipped @ ahead ?skipped"
    using skip_comments_suffix [of "first_root_node (comments d)" real_base]
    by (auto simp: ahead_first_root_node)
  with wf_comments_nested_ok [OF assms(1)] have "nested_ok (ahead ?skipped)"
    by (simp add: nested_ok_append)
  then have ordered: "nested_ok (ahead ?nc)"
    by (cases "icm = ICM_HIDDEN") (simp_all add: ahead_def [of "[]"])
  have behind: "?nc \<noteq> [] \<longrightarrow> real_base \<le> key_offset (deref ?nc)"
    using skip_comments_not_behind [of "first_root_node (comments d)" real_base] by simp
  from ordered behind have com: "comments_inv ?s"
    by (simp add: comments_inv_def)
  have types: "0 < length' \<longrightarrow> types_at ?ti real_base ?hi"
    using types_at_dropWhile [of "data_types d" 0 ?hi real_base] assms(2,4,6)
    by (simp add: wf_types_def)
  have sub: "set ?ti \<subseteq> set (data_types d)"
    by (auto dest: set_dropWhileD)
  from com types sub assms(5,6) have "cr_inv d real_base virt_base length' ?s"
    by (simp add: cr_inv_def in_step_def data_regions_def)
  from main_loop_ok [OF this assms(3), of ?nest ?tr] show ?thesis
  proof (elim disjE exE conjE)
    fix s'
    assume result: "main_loop get_type d ?nest ?tr ?s = Some (Inr (regions s'))"
      and inv: "cr_inv d real_base virt_base length' s'" and finished: "remain_data s' = 0"
    from inv finished have "next_data s' = real_base + length'"
      by (simp add: cr_inv_def in_step_def)
    with inv have "contiguous real_base (data_regions (regions s')) (real_base + length')"
      by (simp add: cr_inv_def)
    moreover from this have "sum_list (map d_length (data_regions (regions s'))) = length'"
      by (simp add: contiguous_sum_list)
    ultimately show ?thesis using result run by auto
  next
    assume "\<not> words_fit get_type d"
      "main_loop get_type d ?nest ?tr ?s = Some (Inl (AssertionFailed Length_Positive))"
    with run show ?thesis by simp
  qed
qed

lemma mixed_document_covered:
  "compute_regions example_types mixed_document 0 0 80 ICM_FULL_INDENT =
       Some (Inr [TypeRegion ''u16'' 0 16 0, CommentRegion 16 24 ''A'' False 16 24,
                  CommentRegion 16 0 ''B'' False 16 0, TypeRegion ''u16'' 16 16 16,
                  DataRegionDocHighlight 32 8 32, CommentRegion 40 0 ''C'' False 40 0,
                  DataRegionDocHighlight 40 40 40])
   \<and> contiguous 0
        [TypeRegion ''u16'' 0 16 0, TypeRegion ''u16'' 16 16 16, DataRegionDocHighlight 32 8 32,
         DataRegionDocHighlight 40 40 40] 80"
proof -
  have wf: "wf_comments (comments mixed_document)" "wf_types mixed_document"
    "word_sizes_positive example_types mixed_document"
    by code_simp+
  have range: "(0 :: int) \<le> 0" "(0 :: int) \<le> 80"
    "0 + 80 \<le> BitOffset (buffer_length mixed_document) 0"
    by (simp_all add: mixed_document_def BitOffset_def)
  have run: "compute_regions example_types mixed_document 0 0 80 ICM_FULL_INDENT =
       Some (Inr [TypeRegion ''u16'' 0 16 0, CommentRegion 16 24 ''A'' False 16 24,
                  CommentRegion 16 0 ''B'' False 16 0, TypeRegion ''u16'' 16 16 16,
                  DataRegionDocHighlight 32 8 32, CommentRegion 40 0 ''C'' False 40 0,
                  DataRegionDocHighlight 40 40 40])"
    by code_simp
  from compute_regions_covers_or_stops [OF wf range, of 0 ICM_FULL_INDENT]
  have "contiguous 0
        [TypeRegion ''u16'' 0 16 0, TypeRegion ''u16'' 16 16 16, DataRegionDocHighlight 32 8 32,
         DataRegionDocHighlight 40 40 40] 80"
    unfolding run by (simp add: data_regions_def)
  with run show ?thesis by blast
qed

lemma word_document_well_formed:
  "wf_comments (comments word_document) \<and> wf_types word_document
   \<and> word_sizes_positive example_types word_document
   \<and> wf_comments (comments halfword_document) \<and> wf_types halfword_document
   \<and> word_sizes_positive example_types halfword_document"
  by code_simp

text \<open>
  C1 does not hold of the code. The file is eight bytes, all of a word type of four bytes
  whose regions have no fixed size, with a comment of length zero at the third byte; the
  comments and the types are well-formed. The two bytes before the comment are less than a
  word: the length of the region, rounded down to whole words, is zero, and the compile of
  the whole file stops at the assertion on that length. No region is returned, and
  \<open>repopulate_regions\<close> gives the document control no region list. Where the type's regions
  have a fixed size, here 16-bit numbers cut by a comment at the second byte, the byte before
  the comment becomes a \<open>DataRegionDocHighlight\<close> and the data regions cover the eight
  bytes.
\<close>

theorem word_cut_short_stops_compile:
  "compute_regions example_types word_document 0 0 (BitOffset (buffer_length word_document) 0)
       ICM_FULL_INDENT = Some (Inl (AssertionFailed Length_Positive))
   \<and> repopulate_regions example_types (new_tab word_document) =
       Some (Inl (AssertionFailed Length_Positive))
   \<and> compute_regions example_types halfword_document 0 0
         (BitOffset (buffer_length halfword_document) 0) ICM_FULL_INDENT =
       Some (Inr [DataRegionDocHighlight 0 8 0, CommentRegion 8 0 ''Z'' False 8 0,
                  TypeRegion ''u16'' 8 16 8, TypeRegion ''u16'' 24 16 24,
                  TypeRegion ''u16'' 40 16 40, DataRegionDocHighlight 56 8 56])"
  by code_simp

end
